theory Spec2Isabelle
  imports Main "HOL-Library.Word"
begin

section \<open>The open-system scheduler of CoMeT (scheduler\_open.cc)\<close>

text \<open>
  A shallow embedding of \<^verbatim>\<open>src/common/scheduler/scheduler_open.cc\<close>.
  Simulated times are \<^verbatim>\<open>UInt64\<close> nanosecond values and are modelled as 64-bit words,
  so that unsigned subtraction wraps as in the source. Task ids, core ids, thread ids and
  counters are C++ \<^verbatim>\<open>int\<close>s that stay far below the 32-bit limit (they index
  the task and core vectors); they are modelled as \<open>int\<close>, with the sentinel \<open>-1\<close>.
  Every \<^verbatim>\<open>exit (1)\<close> of the source is a value of type \<open>failure\<close>; a run that
  reaches undefined behaviour of C++ (an index outside a vector, a division by zero)
  is the failure \<open>Undefined\<close>.
\<close>

type_synonym UInt64 = "64 word"

datatype failure =
    InvalidSystemSize
  | UnknownDistribution
  | UnknownQueuingPolicy
  | Task0NotMapped
  | NonInitialThreadNoCore
  | NextArrivalZero
  | ParallelismTooSmall
  | UnknownSuite
  | ProfileMissing
  | FreeCoresMismatch
  | TaskStateMismatch
  | Undefined

subsection \<open>The grid of the constructor (lines 45 to 53)\<close>

text \<open>
  \<^verbatim>\<open>coreRows = (int)sqrt(numberOfCores)\<close>: the double square root of a core count is
  exact enough that its truncation is the integer square root, which \<open>intSqrt\<close>
  computes by searching downwards from \<open>n\<close>.
\<close>

fun sqrtSearch :: "nat \<Rightarrow> nat \<Rightarrow> nat" where
  "sqrtSearch n 0 = 0"
| "sqrtSearch n (Suc k) = (if Suc k * Suc k \<le> n then Suc k else sqrtSearch n k)"

definition intSqrt :: "nat \<Rightarrow> nat" where
  "intSqrt n = sqrtSearch n n"

text \<open>
  \<^verbatim>\<open>while ((numberOfCores % coreRows) != 0) coreRows -= 1;\<close>
  The remainder by \<open>coreRows = 0\<close> is undefined in C++.
\<close>

fun coreRowsLoop :: "nat \<Rightarrow> nat \<Rightarrow> failure + nat" where
  "coreRowsLoop numberOfCores 0 = Inl Undefined"
| "coreRowsLoop numberOfCores (Suc r) =
     (if numberOfCores mod Suc r \<noteq> 0 then coreRowsLoop numberOfCores r else Inr (Suc r))"

definition gridDimensions :: "nat \<Rightarrow> failure + (nat \<times> nat)" where
  "gridDimensions numberOfCores =
     (case coreRowsLoop numberOfCores (intSqrt numberOfCores) of
        Inl e \<Rightarrow> Inl e
      | Inr coreRows \<Rightarrow>
          (let coreColumns = numberOfCores div coreRows
           in if coreRows * coreColumns \<noteq> numberOfCores then Inl InvalidSystemSize
              else Inr (coreRows, coreColumns)))"

subsection \<open>The benchmark profile table (coreRequirementTranslation, lines 663 to 759)\<close>

text \<open>
  \<^verbatim>\<open>String::find (c, pos)\<close> stored into an \<^verbatim>\<open>int\<close>: the index of the first
  occurrence of \<open>c\<close> at position \<open>pos\<close> or later, and \<open>-1\<close> (\<^verbatim>\<open>npos\<close>) when there is none.
\<close>

fun findFrom :: "char \<Rightarrow> string \<Rightarrow> nat \<Rightarrow> nat \<Rightarrow> int" where
  "findFrom c [] pos i = -1"
| "findFrom c (x # xs) pos i =
     (if pos \<le> i \<and> x = c then int i else findFrom c xs pos (Suc i))"

definition find_char :: "string \<Rightarrow> char \<Rightarrow> int \<Rightarrow> int" where
  "find_char s c pos = findFrom c s (nat pos) 0"

text \<open>
  \<^verbatim>\<open>String::substr (pos, len)\<close> with \<^verbatim>\<open>int\<close> arguments converted to
  \<^verbatim>\<open>size_t\<close>: a negative length is a huge one and means "to the end". Every position
  the source passes is a result of \<open>find_char\<close> plus one, hence between 0 and the length
  of the string, so the \<^verbatim>\<open>out_of_range\<close> exception of \<^verbatim>\<open>substr\<close> cannot be thrown.
\<close>

definition substr :: "string \<Rightarrow> int \<Rightarrow> int \<Rightarrow> string" where
  "substr s pos len =
     (if len < 0 then drop (nat pos) s else take (nat len) (drop (nat pos) s))"

text \<open>
  \<^verbatim>\<open>atoi\<close>: skips white space, reads an optional sign and the decimal digits that
  follow, and returns 0 when there are none.
\<close>

definition isspace :: "char \<Rightarrow> bool" where
  "isspace c = (c \<in> set [CHR '' '', CHR 0x09, CHR 0x0A, CHR 0x0B, CHR 0x0C, CHR 0x0D])"

definition isdigit :: "char \<Rightarrow> bool" where
  "isdigit c = (48 \<le> (of_char c :: nat) \<and> (of_char c :: nat) \<le> 57)"

fun digitsValue :: "string \<Rightarrow> int \<Rightarrow> int" where
  "digitsValue [] acc = acc"
| "digitsValue (c # cs) acc =
     (if isdigit c then digitsValue cs (10 * acc + (int (of_char c) - 48)) else acc)"

definition atoi :: "string \<Rightarrow> int" where
  "atoi s =
     (case dropWhile isspace s of
        [] \<Rightarrow> 0
      | c # cs \<Rightarrow>
          if c = CHR ''-'' then - digitsValue cs 0
          else if c = CHR ''+'' then digitsValue cs 0
          else digitsValue (c # cs) 0)"

definition parsecRequirements :: "string \<Rightarrow> int list" where
  "parsecRequirements benchmark =
     (if benchmark = ''blackscholes'' then [2, 3, 4, 5, 6, 7, 8, 9, 10, 11, 12, 13, 14, 15, 16]
      else if benchmark = ''bodytrack'' then [3, 4, 5, 6, 7, 8, 9, 10, 11, 12, 13, 14, 15, 16]
      else if benchmark = ''canneal'' then [2, 3, 4, 5, 6, 7, 8, 9, 10, 11, 12, 13, 14, 15, 16]
      else if benchmark = ''dedup'' then [4, 7, 10, 13, 16]
      else if benchmark = ''ferret'' then [7, 11, 15]
      else if benchmark = ''fluidanimate'' then [2, 3, 0, 5, 0, 0, 0, 9]
      else if benchmark = ''streamcluster'' then [2, 3, 4, 5, 6, 7, 8, 9, 10, 11, 12, 13, 14, 15, 16]
      else if benchmark = ''swaptions'' then [2, 3, 4, 5, 6, 7, 8, 9, 10, 11, 12, 13, 14, 15, 16]
      else if benchmark = ''x264'' then [1, 3, 4, 5, 6, 7, 8, 9]
      else [])"

definition splash2Requirements :: "string \<Rightarrow> int list" where
  "splash2Requirements benchmark =
     (if benchmark = ''barnes'' then [1, 2, 3, 4, 5, 6, 7, 8, 9, 10, 11, 12, 13, 14, 15, 16]
      else if benchmark = ''cholesky'' then [1, 2, 3, 4, 5, 6, 7, 8, 9, 10, 11, 12, 13, 14, 15, 16]
      else if benchmark = ''fft'' then [1, 2, 0, 4, 0, 0, 0, 8, 0, 0, 0, 0, 0, 0, 0, 16]
      else if benchmark = ''fmm'' then [1, 2, 3, 4, 5, 6, 7, 8, 9, 10, 11, 12, 13, 14, 15, 16]
      else if benchmark = ''lu.cont'' then [1, 2, 3, 4, 5, 6, 7, 8, 9, 10, 11, 12, 13, 14, 15, 16]
      else if benchmark = ''lu.ncont'' then [1, 2, 3, 4, 5, 6, 7, 8, 9, 10, 11, 12, 13, 14, 15, 16]
      else if benchmark = ''ocean.cont'' then [1, 2, 0, 4, 0, 0, 0, 8, 0, 0, 0, 0, 0, 0, 0, 16]
      else if benchmark = ''ocean.ncont'' then [1, 2, 0, 4, 0, 0, 0, 8, 0, 0, 0, 0, 0, 0, 0, 16]
      else if benchmark = ''radiosity'' then [1, 2, 3, 4, 5, 6, 7, 8, 9, 10, 11, 12, 13, 14, 15, 16]
      else if benchmark = ''radix'' then [1, 2, 0, 4, 0, 0, 0, 8, 0, 0, 0, 0, 0, 0, 0, 16]
      else if benchmark = ''raytrace'' then [1, 2, 3, 4, 5, 6, 7, 8, 9, 10, 11, 12, 13, 14, 15, 16]
      else if benchmark = ''water.nsq'' then [1, 2, 3, 4, 5, 6, 7, 8, 9, 10, 11, 12, 13, 14, 15, 16]
      else if benchmark = ''water.sp'' then [1, 2, 0, 4, 0, 0, 0, 8, 0, 0, 0, 0, 0, 0, 0, 16]
      else [])"

text \<open>
  The value of \<^verbatim>\<open>atoi\<close> is undefined when the digits do not fit an \<^verbatim>\<open>int\<close>;
  the model returns \<open>Undefined\<close> there.
\<close>

definition coreRequirementTranslation :: "string \<Rightarrow> failure + int" where
  "coreRequirementTranslation compositionString =
     (let del1 = find_char compositionString CHR ''-'' 0;
          del2 = find_char compositionString CHR ''-'' (del1 + 1);
          del3 = find_char compositionString CHR ''-'' (del2 + 1);
          suite = substr compositionString 0 del1;
          benchmark = substr compositionString (del1 + 1) (del2 - del1 - 1);
          input = substr compositionString (del2 + 1) (del3 - del2 - 1);
          parallelism =
            atoi (substr compositionString (del3 + 1)
                    (int (length compositionString) - del3 - 1))
      in if 2147483647 < parallelism \<or> parallelism < - 2147483648 then Inl Undefined
         else if parallelism < 1 then Inl ParallelismTooSmall
         else if suite = ''parsec'' then
           (let requirements = parsecRequirements benchmark
            in if parallelism - 1 < int (length requirements)
               then Inr (requirements ! nat (parallelism - 1)) else Inl ProfileMissing)
         else if suite = ''splash2'' then
           (let requirements = splash2Requirements benchmark
            in if parallelism - 1 < int (length requirements)
               then Inr (requirements ! nat (parallelism - 1)) else Inl ProfileMissing)
         else Inl UnknownSuite)"

subsection \<open>The arrival times of the constructor (lines 70 to 109)\<close>

text \<open>
  The remainder \<^verbatim>\<open>%\<close> of C++ truncates towards zero. The three loops run over
  \<open>taskIterator = 0, \<dots>, numberOfTasks - 1\<close>; the models return the list of the values
  written to \<^verbatim>\<open>openTasks[taskIterator].taskArrivalTime\<close>. The first argument that
  counts down is the number of tasks still to visit. \<^verbatim>\<open>time += arrivalInterval\<close>
  converts the \<^verbatim>\<open>int\<close> to \<^verbatim>\<open>UInt64\<close>. A remainder by \<open>arrivalRate = 0\<close> is
  undefined.

  The Poisson branch calls the C++ standard library: \<^verbatim>\<open>std::mt19937 generator(seed)\<close>,
  \<^verbatim>\<open>generator()\<close> and \<^verbatim>\<open>(UInt64)expdistribution(generator)\<close> with
  \<open>\<lambda> = 1.0 / arrivalInterval\<close>. They are parameters of the model (the record \<open>stdlib\<close>
  over a type \<open>'g\<close> of generator states), each a function of the generator state;
  \<open>rd\<close> is the value that \<^verbatim>\<open>std::random_device\<close> returns. \<open>poissonIncrements\<close> lists
  the value added to the running time at each task, as a natural number.
\<close>

definition cmod :: "int \<Rightarrow> int \<Rightarrow> int" where
  "cmod a b = a - b * (sgn a * sgn b * (\<bar>a\<bar> div \<bar>b\<bar>))"

fun uniformLoop :: "int \<Rightarrow> int \<Rightarrow> nat \<Rightarrow> nat \<Rightarrow> UInt64 \<Rightarrow> failure + UInt64 list" where
  "uniformLoop arrivalRate arrivalInterval 0 taskIterator time = Inr []"
| "uniformLoop arrivalRate arrivalInterval (Suc k) taskIterator time =
     (if arrivalRate = 0 then Inl Undefined
      else
        let time' = (if cmod (int taskIterator) arrivalRate = 0 \<and> taskIterator \<noteq> 0
                     then time + word_of_int arrivalInterval else time)
        in case uniformLoop arrivalRate arrivalInterval k (Suc taskIterator) time' of
             Inl e \<Rightarrow> Inl e
           | Inr rest \<Rightarrow> Inr (time' # rest))"

definition uniformArrival :: "nat \<Rightarrow> int \<Rightarrow> int \<Rightarrow> failure + UInt64 list" where
  "uniformArrival numberOfTasks arrivalRate arrivalInterval =
     uniformLoop arrivalRate arrivalInterval numberOfTasks 0 0"

definition explicitArrival :: "nat \<Rightarrow> (nat \<Rightarrow> int) \<Rightarrow> UInt64 list" where
  "explicitArrival numberOfTasks explicitArrivalTimes =
     map (\<lambda>taskIterator. word_of_int (explicitArrivalTimes taskIterator)) [0..<numberOfTasks]"

record 'g stdlib =
  mt19937_seed :: "int \<Rightarrow> 'g"
  mt19937_next :: "'g \<Rightarrow> 32 word \<times> 'g"
  exponential :: "int \<Rightarrow> 'g \<Rightarrow> UInt64 \<times> 'g"

fun poissonLoop :: "'g stdlib \<Rightarrow> int \<Rightarrow> int \<Rightarrow> nat \<Rightarrow> nat \<Rightarrow> UInt64 \<Rightarrow> 'g \<Rightarrow> failure + UInt64 list" where
  "poissonLoop lib arrivalRate arrivalInterval 0 taskIterator time generator = Inr []"
| "poissonLoop lib arrivalRate arrivalInterval (Suc k) taskIterator time generator =
     (if arrivalRate = 0 then Inl Undefined
      else
        let (time', generator') =
              (if cmod (int taskIterator) arrivalRate = 0 \<and> taskIterator \<noteq> 0
               then (time + fst (exponential lib arrivalInterval generator),
                     snd (exponential lib arrivalInterval generator))
               else (time, generator))
        in case poissonLoop lib arrivalRate arrivalInterval k (Suc taskIterator) time' generator' of
             Inl e \<Rightarrow> Inl e
           | Inr rest \<Rightarrow> Inr (time' # rest))"

definition poissonGenerator :: "'g stdlib \<Rightarrow> int \<Rightarrow> int \<Rightarrow> 'g" where
  "poissonGenerator lib rd distributionSeed =
     (let seed = (if distributionSeed = 0 then rd else distributionSeed)
      in snd (mt19937_next lib (mt19937_seed lib seed)))"

definition poissonArrival ::
  "'g stdlib \<Rightarrow> int \<Rightarrow> int \<Rightarrow> nat \<Rightarrow> int \<Rightarrow> int \<Rightarrow> failure + UInt64 list" where
  "poissonArrival lib rd distributionSeed numberOfTasks arrivalRate arrivalInterval =
     poissonLoop lib arrivalRate arrivalInterval numberOfTasks 0 0
       (poissonGenerator lib rd distributionSeed)"

fun poissonIncrements :: "'g stdlib \<Rightarrow> int \<Rightarrow> int \<Rightarrow> nat \<Rightarrow> nat \<Rightarrow> 'g \<Rightarrow> nat list" where
  "poissonIncrements lib arrivalRate arrivalInterval 0 taskIterator generator = []"
| "poissonIncrements lib arrivalRate arrivalInterval (Suc k) taskIterator generator =
     (if cmod (int taskIterator) arrivalRate = 0 \<and> taskIterator \<noteq> 0
      then unat (fst (exponential lib arrivalInterval generator))
             # poissonIncrements lib arrivalRate arrivalInterval k (Suc taskIterator)
                 (snd (exponential lib arrivalInterval generator))
      else 0 # poissonIncrements lib arrivalRate arrivalInterval k (Suc taskIterator) generator)"

text \<open>The choice of the distribution (lines 70, 77, 83 and 106).\<close>

definition arrivalTimes ::
  "'g stdlib \<Rightarrow> int \<Rightarrow> string \<Rightarrow> nat \<Rightarrow> int \<Rightarrow> int \<Rightarrow> int \<Rightarrow> (nat \<Rightarrow> int)
     \<Rightarrow> failure + UInt64 list" where
  "arrivalTimes lib rd distribution numberOfTasks arrivalRate arrivalInterval distributionSeed
       explicitArrivalTimes =
     (if distribution = ''uniform'' then uniformArrival numberOfTasks arrivalRate arrivalInterval
      else if distribution = ''explicit''
      then Inr (explicitArrival numberOfTasks explicitArrivalTimes)
      else if distribution = ''poisson''
      then poissonArrival lib rd distributionSeed numberOfTasks arrivalRate arrivalInterval
      else Inl UnknownDistribution)"

subsection \<open>The task and core state\<close>

text \<open>
  The structs \<^verbatim>\<open>openTask\<close> and \<^verbatim>\<open>systemCore\<close> are declared in
  \<^verbatim>\<open>scheduler_open.h\<close>, which is not among the sources; their fields are the ones the
  functions of \<^verbatim>\<open>scheduler_open.cc\<close> read and write.
\<close>

record openTask =
  taskIndex :: int
  taskName :: string
  taskCoreRequirement :: int
  taskArrivalTime :: UInt64
  taskStartTime :: UInt64
  taskDepartureTime :: UInt64
  waitingToSchedule :: bool
  waitingInQueue :: bool
  active :: bool
  completed :: bool

record systemCore =
  coreIndex :: int
  assignedTaskID :: int
  assignedThreadID :: int

text \<open>
  Modelled from the spec: the constructors \<^verbatim>\<open>openTask (id, name, requirement)\<close> and
  \<^verbatim>\<open>systemCore (id)\<close> of the missing header. A task starts in the phase
  WaitingToSchedule with its timestamps 0 ("0 while unset"); a core starts with the
  sentinels "unassigned" and "unattached", both \<open>-1\<close> in the source.
\<close>

definition openTask_new :: "int \<Rightarrow> string \<Rightarrow> int \<Rightarrow> openTask" where
  "openTask_new i name requirement =
     \<lparr>taskIndex = i, taskName = name, taskCoreRequirement = requirement,
      taskArrivalTime = 0, taskStartTime = 0, taskDepartureTime = 0,
      waitingToSchedule = True, waitingInQueue = False, active = False, completed = False\<rparr>"

definition systemCore_new :: "int \<Rightarrow> systemCore" where
  "systemCore_new i = \<lparr>coreIndex = i, assignedTaskID = - 1, assignedThreadID = - 1\<rparr>"

text \<open>
  The members of \<^verbatim>\<open>SchedulerOpen\<close> that the modelled functions use.
  \<^verbatim>\<open>numberOfTasks\<close> and \<^verbatim>\<open>numberOfCores\<close> are fixed by the constructor to the
  sizes of the two vectors (lines 56 to 67), which never change afterwards; the model reads
  them off the lists. The members of the base class \<^verbatim>\<open>SchedulerPinnedBase\<close>
  (\<^verbatim>\<open>m_thread_info\<close>, \<^verbatim>\<open>m_quantum_left\<close>, \<^verbatim>\<open>m_core_thread_running\<close>) belong to
  the host side: the functions below write them through \<^verbatim>\<open>threadSetAffinity\<close> and
  \<^verbatim>\<open>reschedule\<close>, and never read them to decide a write to the tasks or the cores,
  except for the result of \<^verbatim>\<open>findFreeCoreForThread\<close>, which is a parameter.
  \<^verbatim>\<open>mappingEpoch\<close> is the \<^verbatim>\<open>long\<close> as converted for \<^verbatim>\<open>time.getNS () % mappingEpoch\<close>.

  The mapping policy (\<^verbatim>\<open>mappingPolicy->map\<close>) is a parameter of type \<open>policy\<close>: task
  name, core requirement, available cores, active cores to the list of chosen cores. The
  host is a parameter too: the application id of a thread
  (\<^verbatim>\<open>getThreadFromID(thread_id)->getAppId()\<close>) and the base class's
  \<^verbatim>\<open>findFreeCoreForThread\<close>.
\<close>

record scheduler =
  openTasks :: "openTask list"
  systemCores :: "systemCore list"
  m_core_mask :: "bool list"
  queuePolicy :: string
  mappingEpoch :: UInt64

type_synonym policy = "string \<Rightarrow> int \<Rightarrow> bool list \<Rightarrow> bool list \<Rightarrow> int list"

record host =
  getAppId :: "int \<Rightarrow> int"
  findFreeCoreForThread :: "scheduler \<Rightarrow> int \<Rightarrow> int"

definition INVALID_CORE_ID :: int where
  "INVALID_CORE_ID = - 1"

definition numberOfTasks :: "scheduler \<Rightarrow> int" where
  "numberOfTasks s = int (length (openTasks s))"

definition numberOfCores :: "scheduler \<Rightarrow> int" where
  "numberOfCores s = int (length (systemCores s))"

text \<open>
  The search loops \<^verbatim>\<open>for (i = 0; i < n; i++) if (P (v[i])) { found = i; break; }\<close> with the
  result \<open>-1\<close> when nothing is found, and the counting loops.
\<close>

fun firstIndexFrom :: "('a \<Rightarrow> bool) \<Rightarrow> 'a list \<Rightarrow> int \<Rightarrow> int" where
  "firstIndexFrom P [] i = - 1"
| "firstIndexFrom P (x # xs) i = (if P x then i else firstIndexFrom P xs (i + 1))"

definition countWhere :: "('a \<Rightarrow> bool) \<Rightarrow> 'a list \<Rightarrow> int" where
  "countWhere P xs = int (length (filter P xs))"

definition taskFrontOfQueue :: "scheduler \<Rightarrow> failure + int" where
  "taskFrontOfQueue s =
     (if queuePolicy s = ''FIFO'' then Inr (firstIndexFrom waitingInQueue (openTasks s) 0)
      else Inl UnknownQueuingPolicy)"

definition numberOfFreeCores :: "scheduler \<Rightarrow> int" where
  "numberOfFreeCores s = countWhere (\<lambda>c. assignedTaskID c = - 1) (systemCores s)"

definition numberOfTasksInQueue :: "scheduler \<Rightarrow> int" where
  "numberOfTasksInQueue s = countWhere waitingInQueue (openTasks s)"

definition numberOfTasksWaitingToSchedule :: "scheduler \<Rightarrow> int" where
  "numberOfTasksWaitingToSchedule s = countWhere waitingToSchedule (openTasks s)"

definition numberOfTasksCompleted :: "scheduler \<Rightarrow> int" where
  "numberOfTasksCompleted s = countWhere completed (openTasks s)"

definition numberOfActiveTasks :: "scheduler \<Rightarrow> int" where
  "numberOfActiveTasks s = countWhere active (openTasks s)"

definition totalCoreRequirementsOfActiveTasks :: "scheduler \<Rightarrow> int" where
  "totalCoreRequirementsOfActiveTasks s =
     sum_list (map (\<lambda>t. if active t then taskCoreRequirement t else 0) (openTasks s))"

text \<open>
  \<^verbatim>\<open>setAffinity\<close> (lines 311 to 338). The calls of \<^verbatim>\<open>threadSetAffinity\<close> change
  the host's thread information only.
\<close>

definition setAffinity :: "host \<Rightarrow> scheduler \<Rightarrow> int \<Rightarrow> scheduler \<times> int" where
  "setAffinity h s thread_id =
     (let app_id = getAppId h thread_id;
          coreFound = firstIndexFrom
            (\<lambda>c. assignedTaskID c = app_id \<and> assignedThreadID c = - 1) (systemCores s) 0
      in if coreFound = - 1 then (s, coreFound)
         else (s\<lparr>systemCores := (systemCores s)
                  [nat coreFound := (systemCores s ! nat coreFound)\<lparr>assignedThreadID := thread_id\<rparr>]\<rparr>,
               coreFound))"

text \<open>
  \<^verbatim>\<open>executeMappingPolicy\<close> (lines 366 to 387). The source assigns every core of
  \<^verbatim>\<open>bestCores\<close>; an index outside \<^verbatim>\<open>systemCores\<close> is undefined behaviour.
\<close>

definition isAssignedToTask :: "scheduler \<Rightarrow> nat \<Rightarrow> bool" where
  "isAssignedToTask s coreId = (assignedTaskID (systemCores s ! coreId) \<noteq> - 1)"

definition isAssignedToThread :: "scheduler \<Rightarrow> nat \<Rightarrow> bool" where
  "isAssignedToThread s coreId = (assignedThreadID (systemCores s ! coreId) \<noteq> - 1)"

definition availableCores :: "scheduler \<Rightarrow> bool list" where
  "availableCores s =
     map (\<lambda>i. m_core_mask s ! i \<and> \<not> isAssignedToTask s i) [0..<length (systemCores s)]"

definition activeCores :: "scheduler \<Rightarrow> bool list" where
  "activeCores s = map (isAssignedToTask s) [0..<length (systemCores s)]"

fun assignCores :: "systemCore list \<Rightarrow> int list \<Rightarrow> int \<Rightarrow> systemCore list" where
  "assignCores cores [] taskID = cores"
| "assignCores cores (c # bestCores) taskID =
     assignCores (cores[nat c := (cores ! nat c)\<lparr>assignedTaskID := taskID\<rparr>]) bestCores taskID"

definition executeMappingPolicy :: "policy \<Rightarrow> scheduler \<Rightarrow> int \<Rightarrow> failure + (scheduler \<times> bool)" where
  "executeMappingPolicy pol s taskID =
     (let task = openTasks s ! nat taskID;
          bestCores = pol (taskName task) (taskCoreRequirement task)
                        (availableCores s) (activeCores s)
      in if int (length bestCores) < taskCoreRequirement task then Inr (s, False)
         else if list_all (\<lambda>c. 0 \<le> c \<and> c < numberOfCores s) bestCores
         then Inr (s\<lparr>systemCores := assignCores (systemCores s) bestCores taskID\<rparr>, True)
         else Inl Undefined)"

text \<open>
  \<^verbatim>\<open>schedule\<close> (lines 392 to 431). \<^verbatim>\<open>openTasks [taskID]\<close> outside the vector is
  undefined behaviour. The comparison of the arrival time with \<^verbatim>\<open>time.getNS ()\<close> is
  unsigned.
\<close>

definition updateTask :: "scheduler \<Rightarrow> int \<Rightarrow> (openTask \<Rightarrow> openTask) \<Rightarrow> scheduler" where
  "updateTask s i f = s\<lparr>openTasks := (openTasks s)[nat i := f (openTasks s ! nat i)]\<rparr>"

definition schedule ::
  "policy \<Rightarrow> host \<Rightarrow> scheduler \<Rightarrow> int \<Rightarrow> bool \<Rightarrow> UInt64 \<Rightarrow> failure + (scheduler \<times> bool)" where
  "schedule pol h s taskID isInitialCall time =
     (if taskID < 0 \<or> numberOfTasks s \<le> taskID then Inl Undefined
      else if time < taskArrivalTime (openTasks s ! nat taskID) then Inr (s, False)
      else
        let s1 = updateTask s taskID (\<lambda>t. t\<lparr>waitingInQueue := True, waitingToSchedule := False\<rparr>)
        in case taskFrontOfQueue s1 of
             Inl e \<Rightarrow> Inl e
           | Inr front \<Rightarrow>
               if front \<noteq> taskID then Inr (s1, False)
               else if numberOfFreeCores s1 < taskCoreRequirement (openTasks s1 ! nat taskID)
               then Inr (s1, False)
               else
                 (case executeMappingPolicy pol s1 taskID of
                    Inl e \<Rightarrow> Inl e
                  | Inr (s2, mappingSuccesfull) \<Rightarrow>
                      if mappingSuccesfull then
                        let s3 = (if \<not> isInitialCall then fst (setAffinity h s2 taskID) else s2)
                        in Inr (updateTask s3 taskID
                                  (\<lambda>t. t\<lparr>taskStartTime := time, active := True,
                                          waitingInQueue := False, waitingToSchedule := False\<rparr>),
                                True)
                      else Inr (s2, False)))"

text \<open>
  \<^verbatim>\<open>threadCreate\<close> (lines 437 to 492); \<open>time\<close> is the global time the host reports.
  Lines 462 to 470 (\<^verbatim>\<open>m_thread_info\<close>, \<^verbatim>\<open>threadSetInitialAffinity\<close> with
  \<^verbatim>\<open>getFreeCore\<close> and \<^verbatim>\<open>getNextCore\<close>) and lines 476 to 478 and 489 write the
  host side only and are left out; the model describes the calls in which they return.
\<close>

definition threadCreate ::
  "policy \<Rightarrow> host \<Rightarrow> scheduler \<Rightarrow> int \<Rightarrow> UInt64 \<Rightarrow> failure + (scheduler \<times> int)" where
  "threadCreate pol h s thread_id time =
     (case (if thread_id = 0 then
              (case schedule pol h s 0 True time of
                 Inl e \<Rightarrow> Inl e
               | Inr (s1, ok) \<Rightarrow> if \<not> ok then Inl Task0NotMapped else Inr s1)
            else if 0 < thread_id \<and> thread_id < numberOfTasks s then
              (case schedule pol h s thread_id True time of
                 Inl e \<Rightarrow> Inl e
               | Inr (s1, ok) \<Rightarrow> Inr s1)
            else Inr s) of
        Inl e \<Rightarrow> Inl e
      | Inr s1 \<Rightarrow>
          let s2 = fst (setAffinity h s1 thread_id);
              free_core_id = findFreeCoreForThread h s2 thread_id
          in if free_core_id \<noteq> INVALID_CORE_ID then Inr (s2, free_core_id)
             else if numberOfTasks s2 \<le> thread_id then Inl NonInitialThreadNoCore
             else Inr (s2, INVALID_CORE_ID))"

text \<open>
  \<^verbatim>\<open>fetchTasksIntoQueue\<close> (lines 497 to 505) and \<^verbatim>\<open>threadExit\<close> (lines 511 to 612).
  \<open>nextArrivalLoop\<close> is the loop of lines 561 to 571, \<open>readjustArrivalTimes\<close> the loop of
  lines 581 to 586, \<open>scheduleFront\<close> the call \<^verbatim>\<open>schedule (taskFrontOfQueue (), false, time)\<close>,
  \<open>emptySystemPrefetch\<close> the block of lines 549 to 595. The subtractions are those of
  \<^verbatim>\<open>UInt64\<close>. The average of line 607 divides by \<^verbatim>\<open>numberOfTasks\<close>, which is
  undefined for 0 tasks.
\<close>

definition fetchTasksIntoQueue :: "scheduler \<Rightarrow> UInt64 \<Rightarrow> scheduler" where
  "fetchTasksIntoQueue s time =
     s\<lparr>openTasks :=
         map (\<lambda>t. if waitingToSchedule t \<and> taskArrivalTime t \<le> time
                  then t\<lparr>waitingInQueue := True, waitingToSchedule := False\<rparr> else t)
           (openTasks s)\<rparr>"

fun nextArrivalLoop :: "openTask list \<Rightarrow> UInt64 \<Rightarrow> UInt64" where
  "nextArrivalLoop [] nextArrivalTime = nextArrivalTime"
| "nextArrivalLoop (t # ts) nextArrivalTime =
     nextArrivalLoop ts
       (if waitingToSchedule t then
          (if nextArrivalTime = 0 then taskArrivalTime t
           else if taskArrivalTime t < nextArrivalTime then taskArrivalTime t
           else nextArrivalTime)
        else nextArrivalTime)"

definition readjustArrivalTimes :: "scheduler \<Rightarrow> UInt64 \<Rightarrow> scheduler" where
  "readjustArrivalTimes s timeJump =
     s\<lparr>openTasks :=
         map (\<lambda>t. if waitingToSchedule t
                  then t\<lparr>taskArrivalTime := taskArrivalTime t - timeJump\<rparr> else t)
           (openTasks s)\<rparr>"

definition scheduleFront ::
  "policy \<Rightarrow> host \<Rightarrow> scheduler \<Rightarrow> UInt64 \<Rightarrow> failure + (scheduler \<times> bool)" where
  "scheduleFront pol h s time =
     (case taskFrontOfQueue s of
        Inl e \<Rightarrow> Inl e
      | Inr front \<Rightarrow> schedule pol h s front False time)"

definition releaseThread :: "scheduler \<Rightarrow> int \<Rightarrow> scheduler" where
  "releaseThread s thread_id =
     s\<lparr>systemCores :=
         map (\<lambda>c. if assignedThreadID c = thread_id then c\<lparr>assignedThreadID := - 1\<rparr> else c)
           (systemCores s)\<rparr>"

definition releaseTask :: "scheduler \<Rightarrow> int \<Rightarrow> scheduler" where
  "releaseTask s app_id =
     s\<lparr>systemCores :=
         map (\<lambda>c. if assignedTaskID c = app_id then c\<lparr>assignedTaskID := - 1\<rparr> else c)
           (systemCores s)\<rparr>"

definition emptySystemPrefetch ::
  "policy \<Rightarrow> host \<Rightarrow> scheduler \<Rightarrow> UInt64 \<Rightarrow> failure + scheduler" where
  "emptySystemPrefetch pol h s time =
     (if numberOfFreeCores s = numberOfCores s \<and> numberOfTasksWaitingToSchedule s \<noteq> 0 then
        (if numberOfTasksInQueue s \<noteq> 0 then
           (case scheduleFront pol h s time of Inl e \<Rightarrow> Inl e | Inr (s1, ok) \<Rightarrow> Inr s1)
         else if numberOfTasksWaitingToSchedule s \<noteq> 0 then
           (let nextArrivalTime = nextArrivalLoop (openTasks s) 0
            in if nextArrivalTime = 0 then Inl NextArrivalZero
               else
                 let timeJump = nextArrivalTime - time;
                     s1 = readjustArrivalTimes s timeJump;
                     s2 = fetchTasksIntoQueue s1 time
                 in case scheduleFront pol h s2 time of
                      Inl e \<Rightarrow> Inl e
                    | Inr (s3, ok) \<Rightarrow> Inr s3)
         else Inr s)
      else Inr s)"

definition threadExit :: "policy \<Rightarrow> host \<Rightarrow> scheduler \<Rightarrow> int \<Rightarrow> UInt64 \<Rightarrow> failure + scheduler" where
  "threadExit pol h s thread_id time =
     (let app_id = getAppId h thread_id;
          s1 = releaseThread s thread_id
      in case (if thread_id < numberOfTasks s1 then
                 (if app_id < 0 \<or> numberOfTasks s1 \<le> app_id then Inl Undefined
                  else Inr (updateTask (releaseTask s1 app_id) app_id
                         (\<lambda>t. t\<lparr>taskDepartureTime := time, completed := True, active := False\<rparr>)))
               else Inr s1) of
           Inl e \<Rightarrow> Inl e
         | Inr s2 \<Rightarrow>
             (case emptySystemPrefetch pol h s2 time of
                Inl e \<Rightarrow> Inl e
              | Inr s3 \<Rightarrow>
                  if numberOfTasksCompleted s3 = numberOfTasks s3 \<and> numberOfTasks s3 = 0
                  then Inl Undefined else Inr s3))"


text \<open>The queue shrinks with every task that \<open>schedule\<close> admits.\<close>

lemma countWhere_update_less:
  "i < length xs \<Longrightarrow> P (xs ! i) \<Longrightarrow> \<not> P y \<Longrightarrow> countWhere P (xs[i := y]) < countWhere P xs"
proof (induction xs arbitrary: i)
  case Nil
  then show ?case by simp
next
  case (Cons x xs)
  then show ?case by (cases i) (auto simp: countWhere_def)
qed

lemma countWhere_update_same:
  "i < length xs \<Longrightarrow> P (xs ! i) = P y \<Longrightarrow> countWhere P (xs[i := y]) = countWhere P xs"
proof (induction xs arbitrary: i)
  case Nil
  then show ?case by simp
next
  case (Cons x xs)
  then show ?case by (cases i) (auto simp: countWhere_def)
qed

lemma firstIndexFrom_found:
  "countWhere P xs \<noteq> 0 \<Longrightarrow>
     i \<le> firstIndexFrom P xs i \<and> firstIndexFrom P xs i < i + int (length xs)
       \<and> P (xs ! nat (firstIndexFrom P xs i - i))"
proof (induction xs arbitrary: i)
  case Nil
  then show ?case by (simp add: countWhere_def)
next
  case (Cons x xs)
  show ?case
  proof (cases "P x")
    case True
    then show ?thesis by simp
  next
    case False
    with Cons.prems have "countWhere P xs \<noteq> 0" by (simp add: countWhere_def)
    from Cons.IH [OF this, of "i + 1"]
    have ih: "i + 1 \<le> firstIndexFrom P xs (i + 1)"
      "firstIndexFrom P xs (i + 1) < i + 1 + int (length xs)"
      "P (xs ! nat (firstIndexFrom P xs (i + 1) - (i + 1)))" by simp_all
    from ih(1) have "nat (firstIndexFrom P xs (i + 1) - i)
        = Suc (nat (firstIndexFrom P xs (i + 1) - (i + 1)))" by simp
    with ih False show ?thesis by simp
  qed
qed

lemma openTasks_setAffinity: "openTasks (fst (setAffinity h s thread_id)) = openTasks s"
  by (simp add: setAffinity_def Let_def)

lemma openTasks_executeMappingPolicy:
  "executeMappingPolicy pol s taskID = Inr (s', ok) \<Longrightarrow> openTasks s' = openTasks s"
  by (auto simp: executeMappingPolicy_def Let_def split: if_splits)

lemma schedule_admits_shrinks_queue:
  assumes "numberOfTasksInQueue s \<noteq> 0" and "scheduleFront pol h s time = Inr (s', True)"
  shows "numberOfTasksInQueue s' < numberOfTasksInQueue s"
proof -
  let ?ts = "openTasks s"
  let ?f = "firstIndexFrom waitingInQueue ?ts 0"
  from assms(2) have fifo: "taskFrontOfQueue s = Inr ?f"
    by (auto simp: scheduleFront_def taskFrontOfQueue_def split: if_splits)
  with assms(2) have sch: "schedule pol h s ?f False time = Inr (s', True)"
    by (simp add: scheduleFront_def)
  from firstIndexFrom_found [of waitingInQueue ?ts 0] assms(1)
  have f: "0 \<le> ?f" "?f < int (length ?ts)" "waitingInQueue (?ts ! nat ?f)"
    by (simp_all add: numberOfTasksInQueue_def)
  let ?s1 = "updateTask s ?f (\<lambda>t. t\<lparr>waitingInQueue := True, waitingToSchedule := False\<rparr>)"
  from sch f obtain s2 where s2: "executeMappingPolicy pol ?s1 ?f = Inr (s2, True)"
    and s': "s' = updateTask (fst (setAffinity h s2 ?f)) ?f
                  (\<lambda>t. t\<lparr>taskStartTime := time, active := True,
                          waitingInQueue := False, waitingToSchedule := False\<rparr>)"
    by (auto simp: schedule_def Let_def numberOfTasks_def split: if_splits sum.splits)
  have l1: "length (openTasks ?s1) = length ?ts" by (simp add: updateTask_def)
  have q1: "waitingInQueue (openTasks ?s1 ! nat ?f)"
    using f by (simp add: updateTask_def)
  have c1: "countWhere waitingInQueue (openTasks ?s1) = countWhere waitingInQueue ?ts"
    using f by (simp add: updateTask_def countWhere_update_same)
  have o3: "openTasks (fst (setAffinity h s2 ?f)) = openTasks ?s1"
    using openTasks_executeMappingPolicy [OF s2] by (simp add: openTasks_setAffinity)
  let ?y = "(openTasks ?s1 ! nat ?f)\<lparr>taskStartTime := time, active := True,
                          waitingInQueue := False, waitingToSchedule := False\<rparr>"
  have y: "openTasks s' = ?ts[nat ?f := ?y]"
    unfolding s' by (simp add: updateTask_def o3)
  have "\<not> waitingInQueue ?y" by simp
  then have "countWhere waitingInQueue (?ts[nat ?f := ?y]) < countWhere waitingInQueue ?ts"
    using f by (intro countWhere_update_less) auto
  with y show ?thesis by (simp add: numberOfTasksInQueue_def)
qed

text \<open>
  \<^verbatim>\<open>periodic\<close> (lines 764 to 844). \<open>drainQueue\<close> is the loop of lines 789 to 791. The
  printed map and the quantum accounting of the base class change neither tasks nor cores.
\<close>

function drainQueue :: "policy \<Rightarrow> host \<Rightarrow> scheduler \<Rightarrow> UInt64 \<Rightarrow> failure + scheduler" where
  "drainQueue pol h s time =
     (if numberOfTasksInQueue s \<noteq> 0 then
        (case scheduleFront pol h s time of
           Inl e \<Rightarrow> Inl e
         | Inr (s1, ok) \<Rightarrow> if ok then drainQueue pol h s1 time else Inr s1)
      else Inr s)"
  by pat_completeness auto
termination
proof (relation "measure (\<lambda>(pol, h, s, time). nat (numberOfTasksInQueue s))")
  show "wf (measure (\<lambda>(pol, h, s, time). nat (numberOfTasksInQueue s)))" by simp
next
  fix pol :: policy and h s time x2 s1 ok
  assume "numberOfTasksInQueue s \<noteq> 0" "scheduleFront pol h s time = Inr x2"
    "(s1, ok) = x2" "ok"
  then have "numberOfTasksInQueue s1 < numberOfTasksInQueue s"
    using schedule_admits_shrinks_queue [of s pol h time s1] by auto
  moreover have "0 \<le> numberOfTasksInQueue s1"
    by (simp add: numberOfTasksInQueue_def countWhere_def)
  ultimately show "((pol, h, s1, time), (pol, h, s, time))
      \<in> measure (\<lambda>(pol, h, s, time). nat (numberOfTasksInQueue s))"
    by simp
qed

declare drainQueue.simps [simp del]

definition periodic :: "policy \<Rightarrow> host \<Rightarrow> scheduler \<Rightarrow> UInt64 \<Rightarrow> failure + scheduler" where
  "periodic pol h s time =
     (if time mod 1000000 = 0
         \<and> numberOfCores s - totalCoreRequirementsOfActiveTasks s \<noteq> numberOfFreeCores s
      then Inl FreeCoresMismatch
      else if time mod 1000000 = 0
         \<and> numberOfActiveTasks s + numberOfTasksCompleted s + numberOfTasksInQueue s
             + numberOfTasksWaitingToSchedule s \<noteq> numberOfTasks s
      then Inl TaskStateMismatch
      else if mappingEpoch s = 0 then Inl Undefined
      else if time mod mappingEpoch s = 0
      then drainQueue pol h (fetchTasksIntoQueue s time) time
      else Inr s)"

text \<open>The public hooks as one function of the state, and runs of hooks.\<close>

datatype hookCall =
    Schedule int bool UInt64
  | SetAffinity int
  | ThreadCreate int UInt64
  | ThreadExit int UInt64
  | Periodic UInt64

fun hook :: "policy \<Rightarrow> host \<Rightarrow> scheduler \<Rightarrow> hookCall \<Rightarrow> failure + scheduler" where
  "hook pol h s (Schedule taskID isInitialCall time) =
     (case schedule pol h s taskID isInitialCall time of
        Inl e \<Rightarrow> Inl e | Inr (s', ok) \<Rightarrow> Inr s')"
| "hook pol h s (SetAffinity thread_id) = Inr (fst (setAffinity h s thread_id))"
| "hook pol h s (ThreadCreate thread_id time) =
     (case threadCreate pol h s thread_id time of
        Inl e \<Rightarrow> Inl e | Inr (s', core) \<Rightarrow> Inr s')"
| "hook pol h s (ThreadExit thread_id time) = threadExit pol h s thread_id time"
| "hook pol h s (Periodic time) = periodic pol h s time"

fun runHooks :: "policy \<Rightarrow> host \<Rightarrow> scheduler \<Rightarrow> hookCall list \<Rightarrow> failure + scheduler" where
  "runHooks pol h s [] = Inr s"
| "runHooks pol h s (call # calls) =
     (case hook pol h s call of Inl e \<Rightarrow> Inl e | Inr s' \<Rightarrow> runHooks pol h s' calls)"

text \<open>
  Modelled from the spec: the policy \<^verbatim>\<open>MapFirstUnused\<close> of
  \<^verbatim>\<open>policies/mapFirstUnused.h\<close>, which is not among the sources: the first
  \<open>need\<close> preferred cores that are available, in preference order.
\<close>

definition mapFirstUnused :: "int list \<Rightarrow> policy" where
  "mapFirstUnused preferredCoresOrder name need available activeMask =
     take (nat need)
       (filter (\<lambda>c. 0 \<le> c \<and> nat c < length available \<and> available ! nat c)
          preferredCoresOrder)"

text \<open>
  The contract of a mapping policy. \<open>policy_ok\<close>: when the policy returns at least the
  required number of cores (a number that is not negative), it returns exactly that many,
  all different and all available. \<open>policy_available\<close>: every returned core is available.
\<close>

definition policy_ok :: "policy \<Rightarrow> bool" where
  "policy_ok pol =
     (\<forall>name need available activeMask.
        0 \<le> need \<and> need \<le> int (length (pol name need available activeMask)) \<longrightarrow>
          int (length (pol name need available activeMask)) = need
          \<and> distinct (pol name need available activeMask)
          \<and> (\<forall>c \<in> set (pol name need available activeMask).
                0 \<le> c \<and> nat c < length available \<and> available ! nat c))"

definition policy_available :: "policy \<Rightarrow> bool" where
  "policy_available pol =
     (\<forall>name need available activeMask.
        \<forall>c \<in> set (pol name need available activeMask).
          0 \<le> c \<and> nat c < length available \<and> available ! nat c)"

text \<open>
  An example host, in which thread \<open>t\<close> belongs to application \<open>t\<close> and the free core
  of a thread is the core it is attached to, and example states as the constructor
  builds them from core requirements, arrival times and a core mask.
\<close>

definition exampleHost :: host where
  "exampleHost =
     \<lparr>getAppId = (\<lambda>thread_id. thread_id),
      findFreeCoreForThread =
        (\<lambda>s thread_id. firstIndexFrom (\<lambda>c. assignedThreadID c = thread_id) (systemCores s) 0)\<rparr>"

definition exampleState :: "(int \<times> UInt64) list \<Rightarrow> bool list \<Rightarrow> UInt64 \<Rightarrow> scheduler" where
  "exampleState tasks coreMask epoch =
     \<lparr>openTasks =
        map (\<lambda>(i, requirement, arrival).
               (openTask_new (int i) ''task'' requirement)\<lparr>taskArrivalTime := arrival\<rparr>)
          (zip [0..<length tasks] tasks),
      systemCores = map (\<lambda>i. systemCore_new (int i)) [0..<length coreMask],
      m_core_mask = coreMask, queuePolicy = ''FIFO'', mappingEpoch = epoch\<rparr>"

text \<open>
  The state of the specification's scenario 4 after task 0 was admitted: four cores, task 0
  active on cores 0 and 1 with its thread on core 0, task 1 (three cores) not yet queued.
\<close>

definition afterTask0 :: scheduler where
  "afterTask0 =
     \<lparr>openTasks =
        [(openTask_new 0 ''task'' 2)\<lparr>waitingToSchedule := False, active := True\<rparr>,
         openTask_new 1 ''task'' 3],
      systemCores =
        [(systemCore_new 0)\<lparr>assignedTaskID := 0, assignedThreadID := 0\<rparr>,
         (systemCore_new 1)\<lparr>assignedTaskID := 0\<rparr>,
         systemCore_new 2, systemCore_new 3],
      m_core_mask = [True, True, True, True], queuePolicy = ''FIFO'',
      mappingEpoch = 1000000\<rparr>"

text \<open>
  The final state of a run in which task 2 overtakes task 1, and a state with two free
  cores of which the mask allows only the first.
\<close>

definition overtaken :: scheduler where
  "overtaken =
     \<lparr>openTasks =
        [(openTask_new 0 ''task'' 2)\<lparr>waitingToSchedule := False, active := True\<rparr>,
         (openTask_new 1 ''task'' 2)
           \<lparr>taskArrivalTime := 1000, taskStartTime := 1000,
            waitingToSchedule := False, active := True\<rparr>,
         (openTask_new 2 ''task'' 2)\<lparr>waitingToSchedule := False, active := True\<rparr>],
      systemCores =
        [\<lparr>coreIndex = 0, assignedTaskID = 0, assignedThreadID = 0\<rparr>,
         \<lparr>coreIndex = 1, assignedTaskID = 0, assignedThreadID = - 1\<rparr>,
         \<lparr>coreIndex = 2, assignedTaskID = 2, assignedThreadID = 2\<rparr>,
         \<lparr>coreIndex = 3, assignedTaskID = 2, assignedThreadID = - 1\<rparr>,
         \<lparr>coreIndex = 4, assignedTaskID = 1, assignedThreadID = 1\<rparr>,
         \<lparr>coreIndex = 5, assignedTaskID = 1, assignedThreadID = - 1\<rparr>],
      m_core_mask = [True, True, True, True, True, True],
      queuePolicy = ''FIFO'', mappingEpoch = 1000\<rparr>"

definition maskedState :: scheduler where
  "maskedState = exampleState [(2, 0)] [True, False] 1000000"

text \<open>
  A state in which task 0 runs on both cores and task 1, which arrived at time 1000, has
  not been fetched into the queue yet (the mapping epoch is 1 ms), and the state after the
  thread of task 0 exits at time 5000.
\<close>

definition lateExit :: scheduler where
  "lateExit =
     \<lparr>openTasks =
        [(openTask_new 0 ''task'' 2)\<lparr>waitingToSchedule := False, active := True\<rparr>,
         (openTask_new 1 ''task'' 2)\<lparr>taskArrivalTime := 1000\<rparr>],
      systemCores =
        [\<lparr>coreIndex = 0, assignedTaskID = 0, assignedThreadID = 0\<rparr>,
         \<lparr>coreIndex = 1, assignedTaskID = 0, assignedThreadID = - 1\<rparr>],
      m_core_mask = [True, True], queuePolicy = ''FIFO'', mappingEpoch = 1000000\<rparr>"

definition lateExitResult :: scheduler where
  "lateExitResult =
     \<lparr>openTasks =
        [(openTask_new 0 ''task'' 2)
           \<lparr>taskDepartureTime := 5000, waitingToSchedule := False, completed := True\<rparr>,
         (openTask_new 1 ''task'' 2)
           \<lparr>taskArrivalTime := 5000, taskStartTime := 5000,
            waitingToSchedule := False, active := True\<rparr>],
      systemCores =
        [\<lparr>coreIndex = 0, assignedTaskID = 1, assignedThreadID = 1\<rparr>,
         \<lparr>coreIndex = 1, assignedTaskID = 1, assignedThreadID = - 1\<rparr>],
      m_core_mask = [True, True], queuePolicy = ''FIFO'', mappingEpoch = 1000000\<rparr>"

text \<open>
  The invariant I3 of the specification, and the condition on \<open>thread_exit\<close> under which
  it is kept: when the primary thread of a task exits, no other thread is attached to a
  core of the task.
\<close>

definition threadTaskConsistent :: "host \<Rightarrow> scheduler \<Rightarrow> bool" where
  "threadTaskConsistent h s =
     (\<forall>c \<in> set (systemCores s).
        assignedThreadID c \<noteq> - 1 \<longrightarrow>
          assignedTaskID c \<noteq> - 1 \<and> getAppId h (assignedThreadID c) = assignedTaskID c)"

fun lastThreadOfTask :: "host \<Rightarrow> scheduler \<Rightarrow> hookCall \<Rightarrow> bool" where
  "lastThreadOfTask h s (ThreadExit thread_id time) =
     (thread_id < numberOfTasks s \<longrightarrow>
        (\<forall>c \<in> set (systemCores s).
           assignedTaskID c = getAppId h thread_id \<longrightarrow>
             assignedThreadID c = - 1 \<or> assignedThreadID c = thread_id))"
| "lastThreadOfTask h s call = True"

text \<open>
  A host in which every thread belongs to application 0; the state after the primary thread
  of the only task was created; and the state that is left when the primary thread exits
  while a worker thread of the task is still attached to core 1.
\<close>

definition singleAppHost :: host where
  "singleAppHost =
     \<lparr>getAppId = (\<lambda>thread_id. 0),
      findFreeCoreForThread =
        (\<lambda>s thread_id. firstIndexFrom (\<lambda>c. assignedThreadID c = thread_id) (systemCores s) 0)\<rparr>"

definition oneTaskStarted :: scheduler where
  "oneTaskStarted =
     \<lparr>openTasks =
        [(openTask_new 0 ''task'' 2)\<lparr>waitingToSchedule := False, active := True\<rparr>],
      systemCores =
        [\<lparr>coreIndex = 0, assignedTaskID = 0, assignedThreadID = 0\<rparr>,
         \<lparr>coreIndex = 1, assignedTaskID = 0, assignedThreadID = - 1\<rparr>],
      m_core_mask = [True, True], queuePolicy = ''FIFO'', mappingEpoch = 1000000\<rparr>"

definition oneTaskDone :: scheduler where
  "oneTaskDone =
     \<lparr>openTasks =
        [(openTask_new 0 ''task'' 2)
           \<lparr>taskDepartureTime := 5000, waitingToSchedule := False, completed := True\<rparr>],
      systemCores =
        [\<lparr>coreIndex = 0, assignedTaskID = - 1, assignedThreadID = - 1\<rparr>,
         \<lparr>coreIndex = 1, assignedTaskID = - 1, assignedThreadID = - 1\<rparr>],
      m_core_mask = [True, True], queuePolicy = ''FIFO'', mappingEpoch = 1000000\<rparr>"

definition workerLeft :: scheduler where
  "workerLeft =
     \<lparr>openTasks =
        [(openTask_new 0 ''task'' 2)
           \<lparr>taskDepartureTime := 5000, waitingToSchedule := False, completed := True\<rparr>],
      systemCores =
        [\<lparr>coreIndex = 0, assignedTaskID = - 1, assignedThreadID = - 1\<rparr>,
         \<lparr>coreIndex = 1, assignedTaskID = - 1, assignedThreadID = 1\<rparr>],
      m_core_mask = [True, True], queuePolicy = ''FIFO'', mappingEpoch = 1000000\<rparr>"

text \<open>
  The invariant I1 of the specification in its two forms, the stronger invariant that the
  hooks keep, and the condition on \<open>schedule\<close> and \<open>thread_create\<close> under which they keep it.
  \<open>coreTasks\<close> lists the task id of every core. \<open>capacityConsistent\<close>: every core is
  unassigned or assigned to a task id in range; every task holds as many cores as it
  requires when it is active and none otherwise; no requirement is negative; an active
  task is neither queued nor waiting to be scheduled.
\<close>

definition coreTasks :: "scheduler \<Rightarrow> int list" where
  "coreTasks s = map assignedTaskID (systemCores s)"

definition capacity :: "scheduler \<Rightarrow> bool" where
  "capacity s =
     (countWhere (\<lambda>c. assignedTaskID c \<noteq> - 1) (systemCores s)
        = totalCoreRequirementsOfActiveTasks s
      \<and> numberOfFreeCores s + totalCoreRequirementsOfActiveTasks s = numberOfCores s)"

definition capacityConsistent :: "scheduler \<Rightarrow> bool" where
  "capacityConsistent s =
     ((\<forall>x \<in> set (coreTasks s). x = - 1 \<or> (0 \<le> x \<and> x < numberOfTasks s))
      \<and> (\<forall>i < length (openTasks s).
            int (count_list (coreTasks s) (int i))
              = (if active (openTasks s ! i) then taskCoreRequirement (openTasks s ! i) else 0)
            \<and> 0 \<le> taskCoreRequirement (openTasks s ! i)
            \<and> (active (openTasks s ! i) \<longrightarrow>
                 \<not> waitingInQueue (openTasks s ! i) \<and> \<not> waitingToSchedule (openTasks s ! i))))"

fun notYetActive :: "scheduler \<Rightarrow> hookCall \<Rightarrow> bool" where
  "notYetActive s (Schedule taskID isInitialCall time) =
     (0 \<le> taskID \<and> taskID < numberOfTasks s \<longrightarrow> \<not> active (openTasks s ! nat taskID))"
| "notYetActive s (ThreadCreate thread_id time) =
     (0 \<le> thread_id \<and> thread_id < numberOfTasks s \<longrightarrow> \<not> active (openTasks s ! nat thread_id))"
| "notYetActive s call = True"

text \<open>
  One task of two cores on four cores: the state after the task was admitted, and the state
  after \<open>schedule\<close> was called for it a second time.
\<close>

definition admittedOnce :: scheduler where
  "admittedOnce =
     \<lparr>openTasks =
        [(openTask_new 0 ''task'' 2)\<lparr>waitingToSchedule := False, active := True\<rparr>],
      systemCores =
        [\<lparr>coreIndex = 0, assignedTaskID = 0, assignedThreadID = 0\<rparr>,
         \<lparr>coreIndex = 1, assignedTaskID = 0, assignedThreadID = - 1\<rparr>,
         \<lparr>coreIndex = 2, assignedTaskID = - 1, assignedThreadID = - 1\<rparr>,
         \<lparr>coreIndex = 3, assignedTaskID = - 1, assignedThreadID = - 1\<rparr>],
      m_core_mask = [True, True, True, True], queuePolicy = ''FIFO'',
      mappingEpoch = 1000000\<rparr>"

definition admittedTwice :: scheduler where
  "admittedTwice =
     \<lparr>openTasks =
        [(openTask_new 0 ''task'' 2)
           \<lparr>taskStartTime := 10, waitingToSchedule := False, active := True\<rparr>],
      systemCores =
        [\<lparr>coreIndex = 0, assignedTaskID = 0, assignedThreadID = 0\<rparr>,
         \<lparr>coreIndex = 1, assignedTaskID = 0, assignedThreadID = - 1\<rparr>,
         \<lparr>coreIndex = 2, assignedTaskID = 0, assignedThreadID = - 1\<rparr>,
         \<lparr>coreIndex = 3, assignedTaskID = 0, assignedThreadID = - 1\<rparr>],
      m_core_mask = [True, True, True, True], queuePolicy = ''FIFO'',
      mappingEpoch = 1000000\<rparr>"

text \<open>
  The phases of a task as the flags encode them, and the order that a run of hooks keeps
  among the tasks. A task has entered Active when it is active or completed. Of two tasks,
  the one with the smaller index first: if the first still waits to be scheduled, so does
  the second, with an arrival time that is not earlier; if the second has entered Active,
  so has the first, with a start time that is not later. \<open>fifoOrdered T\<close>: every task is
  in one phase, every start time is at most \<open>T\<close>, and every pair of tasks is in order.
\<close>

definition entered :: "openTask \<Rightarrow> bool" where
  "entered t = (active t \<or> completed t)"

definition inPhase :: "openTask \<Rightarrow> bool" where
  "inPhase t =
     ((waitingToSchedule t \<and> \<not> waitingInQueue t \<and> \<not> entered t)
      \<or> (waitingInQueue t \<and> \<not> waitingToSchedule t \<and> \<not> entered t)
      \<or> (\<not> waitingInQueue t \<and> \<not> waitingToSchedule t \<and> entered t))"

definition pairOrdered :: "openTask \<Rightarrow> openTask \<Rightarrow> bool" where
  "pairOrdered a b =
     ((waitingToSchedule a \<longrightarrow> waitingToSchedule b \<and> taskArrivalTime a \<le> taskArrivalTime b)
      \<and> (entered b \<longrightarrow> entered a \<and> taskStartTime a \<le> taskStartTime b))"

definition fifoOrdered :: "UInt64 \<Rightarrow> openTask list \<Rightarrow> bool" where
  "fifoOrdered T ts =
     ((\<forall>t \<in> set ts. inPhase t \<and> (entered t \<longrightarrow> taskStartTime t \<le> T))
      \<and> (\<forall>j < length ts. \<forall>i < j. pairOrdered (ts ! i) (ts ! j)))"

text \<open>
  The discipline of the host. \<open>schedule\<close> and \<open>thread_create\<close> are called for a task that
  has not entered Active and, once its arrival time has passed, only when no task with a
  smaller index still waits to be scheduled. The primary thread of a task exits only
  while the task is active; at that moment no waiting task has the arrival time 0, and
  the sum of its arrival time and the current time does not wrap around. The time of a
  call is not before the time \<open>T\<close> of the call before it.
\<close>

definition scheduleAllowed :: "scheduler \<Rightarrow> int \<Rightarrow> UInt64 \<Rightarrow> bool" where
  "scheduleAllowed s taskID time =
     (0 \<le> taskID \<and> taskID < numberOfTasks s \<longrightarrow>
        \<not> entered (openTasks s ! nat taskID)
        \<and> (time < taskArrivalTime (openTasks s ! nat taskID)
             \<or> (\<forall>t \<in> set (take (nat taskID) (openTasks s)). \<not> waitingToSchedule t)))"

definition exitAllowed :: "host \<Rightarrow> scheduler \<Rightarrow> int \<Rightarrow> UInt64 \<Rightarrow> bool" where
  "exitAllowed h s thread_id time =
     ((thread_id < numberOfTasks s \<and> 0 \<le> getAppId h thread_id
         \<and> getAppId h thread_id < numberOfTasks s \<longrightarrow>
           active (openTasks s ! nat (getAppId h thread_id)))
      \<and> (\<forall>t \<in> set (openTasks s).
            waitingToSchedule t \<longrightarrow>
              0 < taskArrivalTime t \<and> taskArrivalTime t \<le> taskArrivalTime t + time))"

fun callAllowed :: "host \<Rightarrow> scheduler \<Rightarrow> UInt64 \<Rightarrow> hookCall \<Rightarrow> bool" where
  "callAllowed h s T (Schedule taskID isInitialCall time) =
     (T \<le> time \<and> scheduleAllowed s taskID time)"
| "callAllowed h s T (SetAffinity thread_id) = True"
| "callAllowed h s T (ThreadCreate thread_id time) =
     (T \<le> time \<and> scheduleAllowed s thread_id time)"
| "callAllowed h s T (ThreadExit thread_id time) =
     (T \<le> time \<and> exitAllowed h s thread_id time)"
| "callAllowed h s T (Periodic time) = (T \<le> time)"

fun callTime :: "UInt64 \<Rightarrow> hookCall \<Rightarrow> UInt64" where
  "callTime T (Schedule taskID isInitialCall time) = time"
| "callTime T (SetAffinity thread_id) = T"
| "callTime T (ThreadCreate thread_id time) = time"
| "callTime T (ThreadExit thread_id time) = time"
| "callTime T (Periodic time) = time"

fun disciplined :: "policy \<Rightarrow> host \<Rightarrow> scheduler \<Rightarrow> UInt64 \<Rightarrow> hookCall list \<Rightarrow> bool" where
  "disciplined pol h s T [] = True"
| "disciplined pol h s T (call # calls) =
     (callAllowed h s T call
      \<and> (case hook pol h s call of
            Inl e \<Rightarrow> True
          | Inr s' \<Rightarrow> disciplined pol h s' (callTime T call) calls))"

text \<open>
  The final state of scenario 3 of the specification: two tasks of two cores on two cores,
  arrival times 0 and 10000000; task 0 ends at time 5000 and the time jump admits task 1.
\<close>

definition jumpAdmitted :: scheduler where
  "jumpAdmitted =
     \<lparr>openTasks =
        [(openTask_new 0 ''task'' 2)
           \<lparr>taskDepartureTime := 5000, waitingToSchedule := False, completed := True\<rparr>,
         (openTask_new 1 ''task'' 2)
           \<lparr>taskArrivalTime := 5000, taskStartTime := 5000,
            waitingToSchedule := False, active := True\<rparr>],
      systemCores =
        [\<lparr>coreIndex = 0, assignedTaskID = 1, assignedThreadID = 1\<rparr>,
         \<lparr>coreIndex = 1, assignedTaskID = 1, assignedThreadID = - 1\<rparr>],
      m_core_mask = [True, True], queuePolicy = ''FIFO'', mappingEpoch = 1000000\<rparr>"

section \<open>Properties\<close>

subsection \<open>The grid\<close>

lemma sqrtSearch_le: "sqrtSearch n k \<le> k"
  by (induction k) auto

lemma sqrtSearch_sq: "sqrtSearch n k * sqrtSearch n k \<le> n"
  by (induction k) auto

lemma sqrtSearch_max: "j \<le> k \<Longrightarrow> j * j \<le> n \<Longrightarrow> j \<le> sqrtSearch n k"
proof (induction k)
  case 0
  then show ?case by simp
next
  case (Suc k)
  show ?case
  proof (cases "Suc k * Suc k \<le> n")
    case True
    with Suc.prems show ?thesis by simp
  next
    case False
    with Suc.prems have "j \<noteq> Suc k" by auto
    with Suc.prems have "j \<le> k" by simp
    with Suc False show ?thesis by simp
  qed
qed

lemma intSqrt_sq: "intSqrt n * intSqrt n \<le> n"
  by (simp add: intSqrt_def sqrtSearch_sq)

lemma intSqrt_max: "j * j \<le> n \<Longrightarrow> j \<le> intSqrt n"
proof -
  assume h: "j * j \<le> n"
  have "j \<le> j * j" by (cases j) auto
  from this h have "j \<le> n" by (rule le_trans)
  with h show ?thesis by (simp add: intSqrt_def sqrtSearch_max)
qed

lemma intSqrt_pos: "0 < n \<Longrightarrow> 0 < intSqrt n"
  using intSqrt_max [of 1 n] by simp

lemma coreRowsLoop_spec:
  "0 < r \<Longrightarrow> \<exists>d. coreRowsLoop n r = Inr d \<and> 0 < d \<and> d \<le> r \<and> d dvd n
     \<and> (\<forall>e. e dvd n \<and> e \<le> r \<longrightarrow> e \<le> d)"
proof (induction r)
  case 0
  then show ?case by simp
next
  case (Suc r)
  show ?case
  proof (cases "n mod Suc r = 0")
    case True
    then show ?thesis by (auto simp: dvd_eq_mod_eq_0)
  next
    case False
    then have nd: "\<not> Suc r dvd n" by (simp add: dvd_eq_mod_eq_0)
    have "0 < r"
    proof (rule ccontr)
      assume "\<not> 0 < r"
      then have "r = 0" by simp
      with False show False by simp
    qed
    from Suc.IH [OF this] obtain d where d:
      "coreRowsLoop n r = Inr d" "0 < d" "d \<le> r" "d dvd n"
      "\<forall>e. e dvd n \<and> e \<le> r \<longrightarrow> e \<le> d" by blast
    have "\<forall>e. e dvd n \<and> e \<le> Suc r \<longrightarrow> e \<le> d"
    proof (intro allI impI)
      fix e assume e: "e dvd n \<and> e \<le> Suc r"
      with nd have "e \<noteq> Suc r" by auto
      with e have "e \<le> r" by simp
      with e d(5) show "e \<le> d" by blast
    qed
    with d False show ?thesis by auto
  qed
qed

text \<open>
  C3, as the code has it. For every core count \<open>M \<ge> 1\<close> the constructor finds the row count
  \<open>r\<close>, the largest divisor of \<open>M\<close> that does not exceed the integer square root of \<open>M\<close>,
  and the column count \<open>M div r\<close>; their product is \<open>M\<close>, so the invalid-system-size abort
  is never taken: a prime \<open>M\<close> gives the grid of one row and \<open>M\<close> columns.
\<close>

theorem grid_largest_divisor:
  assumes "0 < M"
  shows "\<exists>r. gridDimensions M = Inr (r, M div r) \<and> r dvd M \<and> r * r \<le> M
           \<and> (\<forall>e. e dvd M \<and> e * e \<le> M \<longrightarrow> e \<le> r) \<and> r * (M div r) = M
           \<and> gridDimensions M \<noteq> Inl InvalidSystemSize"
proof -
  from coreRowsLoop_spec [OF intSqrt_pos [OF assms], of M] obtain d where d:
    "coreRowsLoop M (intSqrt M) = Inr d" "0 < d" "d \<le> intSqrt M" "d dvd M"
    "\<forall>e. e dvd M \<and> e \<le> intSqrt M \<longrightarrow> e \<le> d" by blast
  from d(4) have prod: "d * (M div d) = M" by simp
  have "d * d \<le> intSqrt M * intSqrt M" using d(3) by (simp add: mult_le_mono)
  then have sq: "d * d \<le> M" using intSqrt_sq [of M] by simp
  have mx: "\<forall>e. e dvd M \<and> e * e \<le> M \<longrightarrow> e \<le> d"
    using d(5) intSqrt_max by blast
  have "gridDimensions M = Inr (d, M div d)"
    using d(1) prod by (simp add: gridDimensions_def)
  with d(4) sq mx prod show ?thesis by auto
qed

theorem grid_largest_divisor_witness:
  "gridDimensions 12 = Inr (3, 4) \<and> gridDimensions 12 \<noteq> Inl InvalidSystemSize"
proof -
  from grid_largest_divisor [of 12] obtain r where r:
    "gridDimensions 12 = Inr (r, 12 div r)" "r dvd 12" "r * r \<le> 12"
    "\<forall>e. e dvd 12 \<and> e * e \<le> 12 \<longrightarrow> e \<le> r"
    "gridDimensions 12 \<noteq> Inl InvalidSystemSize" by auto
  from r(4) have "3 \<le> r" by simp
  moreover have "r < 4"
  proof (rule ccontr)
    assume "\<not> r < 4"
    then have "4 * 4 \<le> r * r" by (intro mult_le_mono) auto
    with r(3) show False by simp
  qed
  ultimately have "r = 3" by simp
  with r(1) r(5) show ?thesis by simp
qed

text \<open>
  C3, as the specification states it, fails: the prime core count 7 does not abort the
  start; it yields the grid of 1 row and 7 columns.
\<close>

theorem grid_prime_counterexample:
  "gridDimensions 7 = Inr (1, 7)"
  by code_simp

subsection \<open>The profile table\<close>

text \<open>
  C4. The table entry 0 (the placeholders of the source's comments, "don't allow in the
  first place") is returned as a core requirement of 0: the start does not fail for
  \<^verbatim>\<open>parsec-fluidanimate-simsmall-3\<close> nor for \<^verbatim>\<open>splash2-fft-small-3\<close>.
\<close>

theorem zero_profile_entry_returned:
  "coreRequirementTranslation ''parsec-fluidanimate-simsmall-3'' = Inr 0
   \<and> coreRequirementTranslation ''splash2-fft-small-3'' = Inr 0"
  by (simp add: coreRequirementTranslation_def find_char_def substr_def atoi_def
      isspace_def isdigit_def parsecRequirements_def splash2Requirements_def
      Let_def)

subsection \<open>The arrival times\<close>

lemma cmod_nonneg: "0 \<le> a \<Longrightarrow> 0 < b \<Longrightarrow> cmod a b = a mod b"
  apply (cases "a = 0") apply (simp add: cmod_def)
  apply (simp add: cmod_def minus_mult_div_eq_mod)
  done


lemma word_of_int_mono64: "0 \<le> a \<Longrightarrow> a \<le> b \<Longrightarrow> b < 2 ^ 64 \<Longrightarrow> (word_of_int a :: 64 word) \<le> word_of_int b"
  by (simp add: word_of_int_less_eq_iff take_bit_int_eq_self)


lemma cmod_nat: "0 < R \<Longrightarrow> cmod (int i) R = 0 \<longleftrightarrow> i mod nat R = 0"
proof -
  assume R: "0 < R"
  then have "cmod (int i) R = int i mod R" by (simp add: cmod_nonneg)
  also have "\<dots> = int (i mod nat R)" using R by (simp add: zmod_int)
  finally show ?thesis by simp
qed



lemma uniformLoop_formula:
  assumes R: "0 < R"
  shows "time = (if i = 0 then 0 else word_of_int I * of_nat ((i - 1) div nat R)) \<Longrightarrow>
     uniformLoop R I k i time = Inr (map (\<lambda>j. word_of_int I * of_nat (j div nat R)) [i..<i + k])"
proof (induction k arbitrary: i time)
  case 0
  then show ?case by simp
next
  case (Suc k)
  let ?t = "if cmod (int i) R = 0 \<and> i \<noteq> 0 then time + word_of_int I else time"
  have t: "?t = word_of_int I * of_nat (i div nat R)"
  proof (cases i)
    case 0
    with Suc.prems show ?thesis by simp
  next
    case (Suc m')
    with Suc.prems have "time = word_of_int I * of_nat (m' div nat R)" by simp
    then show ?thesis
      unfolding cmod_nat [OF R] using Suc by (simp add: div_Suc distrib_left)
  qed
  have ih: "uniformLoop R I k (Suc i) ?t
      = Inr (map (\<lambda>j. word_of_int I * of_nat (j div nat R)) [Suc i..<Suc i + k])"
    by (rule Suc.IH, unfold t, simp)
  have step: "uniformLoop R I (Suc k) i time =
     (case uniformLoop R I k (Suc i) ?t of Inl e \<Rightarrow> Inl e | Inr rest \<Rightarrow> Inr (?t # rest))"
    using R by (auto simp add: Let_def)
  have "[i..<i + Suc k] = i # [Suc i..<Suc i + k]"
    by (simp add: upt_conv_Cons)
  then show ?case unfolding step ih unfolding t by simp
qed

lemma int_div_nat: "0 < R \<Longrightarrow> int (j div nat R) = int j div R"
  by (simp add: zdiv_int)

lemma uniformArrival_formula:
  assumes "0 < R"
  shows "uniformArrival N R I = Inr (map (\<lambda>j. word_of_int (I * (int j div R))) [0..<N])"
proof -
  have "\<And>j. (word_of_int I :: 64 word) * of_nat (j div nat R) = word_of_int (I * (int j div R))"
  proof -
    fix j
    have "(of_nat (j div nat R) :: 64 word) = word_of_int (int (j div nat R))" by simp
    then show "(word_of_int I :: 64 word) * of_nat (j div nat R) = word_of_int (I * (int j div R))"
      unfolding int_div_nat [OF assms] by (simp add: word_of_int_hom_syms)
  qed
  then show ?thesis
    using uniformLoop_formula [OF assms, of 0 0 I N] by (simp add: uniformArrival_def)
qed

lemma sorted_uniform:
  assumes "0 < R" "0 \<le> I" "I * int N < 2 ^ 64"
  shows "sorted (map (\<lambda>j. word_of_int (I * (int j div R)) :: 64 word) [0..<N])"
proof (unfold sorted_iff_nth_mono, intro allI impI)
  fix i j assume ij: "i \<le> j" "j < length (map (\<lambda>j. word_of_int (I * (int j div R)) :: 64 word) [0..<N])"
  then have jN: "j < N" by simp
  have "int (j div nat R) \<le> int j" by (simp only: of_nat_le_iff div_le_dividend)
  then have "int j div R \<le> int j" by (simp only: int_div_nat [OF assms(1)])
  then have "I * (int j div R) \<le> I * int N" using assms(2) jN by (intro mult_left_mono) auto
  then have b: "I * (int j div R) < 2 ^ 64" using assms(3) by simp
  have a: "I * (int i div R) \<le> I * (int j div R)"
    using assms(1,2) ij(1) by (intro mult_left_mono zdiv_mono1) auto
  have z: "0 \<le> I * (int i div R)" using assms(1,2) by (simp add: pos_imp_zdiv_nonneg_iff)
  show "map (\<lambda>j. word_of_int (I * (int j div R)) :: 64 word) [0..<N] ! i
        \<le> map (\<lambda>j. word_of_int (I * (int j div R))) [0..<N] ! j"
    using word_of_int_mono64 [OF z a b] ij jN by simp
qed


lemma poissonLoop_sorted:
  "R \<noteq> 0 \<Longrightarrow> unat time + sum_list (poissonIncrements lib R I k i g) < 2 ^ 64 \<Longrightarrow>
     \<exists>ts. poissonLoop lib R I k i time g = Inr ts \<and> length ts = k \<and> sorted ts
          \<and> (\<forall>t \<in> set ts. time \<le> t)"
proof (induction k arbitrary: i time g)
  case 0
  then show ?case by simp
next
  case (Suc k)
  show ?case
  proof (cases "cmod (int i) R = 0 \<and> i \<noteq> 0")
    case True
    let ?d = "fst (exponential lib I g)"
    let ?g = "snd (exponential lib I g)"
    from Suc.prems(2) True
    have b: "unat time + unat ?d + sum_list (poissonIncrements lib R I k (Suc i) ?g) < 2 ^ 64"
      by simp
    then have nw: "unat time + unat ?d < 2 ^ 64" by simp
    then have u: "unat (time + ?d) = unat time + unat ?d"
      using unat_add_lem [of time ?d] by simp
    have le: "time \<le> time + ?d" using nw no_olen_add_nat [of time ?d] by simp
    from b u have "unat (time + ?d) + sum_list (poissonIncrements lib R I k (Suc i) ?g) < 2 ^ 64"
      by simp
    from Suc.IH [OF Suc.prems(1) this] obtain ts where ts:
      "poissonLoop lib R I k (Suc i) (time + ?d) ?g = Inr ts" "length ts = k" "sorted ts"
      "\<forall>t \<in> set ts. time + ?d \<le> t" by blast
    have "poissonLoop lib R I (Suc k) i time g = Inr ((time + ?d) # ts)"
      using True Suc.prems(1) ts(1) by simp
    moreover have "\<forall>t \<in> set ts. time \<le> t" using ts(4) le by auto
    ultimately show ?thesis using ts le by auto
  next
    case False
    with Suc.prems(2)
    have "unat time + sum_list (poissonIncrements lib R I k (Suc i) g) < 2 ^ 64" by auto
    from Suc.IH [OF Suc.prems(1) this] obtain ts where ts:
      "poissonLoop lib R I k (Suc i) time g = Inr ts" "length ts = k" "sorted ts"
      "\<forall>t \<in> set ts. time \<le> t" by blast
    have "poissonLoop lib R I (Suc k) i time g = Inr (time # ts)"
      using False Suc.prems(1) ts(1) by auto
    then show ?thesis using ts by auto
  qed
qed


lemma poissonLoop_total:
  "R \<noteq> 0 \<Longrightarrow> \<exists>ts. poissonLoop lib R I k i time g = Inr ts \<and> length ts = k"
proof (induction k arbitrary: i time g)
  case 0
  then show ?case by simp
next
  case (Suc k)
  let ?t = "if cmod (int i) R = 0 \<and> i \<noteq> 0 then time + fst (exponential lib I g) else time"
  let ?g = "if cmod (int i) R = 0 \<and> i \<noteq> 0 then snd (exponential lib I g) else g"
  from Suc.IH [OF Suc.prems, of "Suc i" ?t ?g] obtain ts where
    "poissonLoop lib R I k (Suc i) ?t ?g = Inr ts" "length ts = k" by blast
  then show ?case using Suc.prems by auto
qed

lemma poissonLoop_first_draw:
  "0 < R \<Longrightarrow> i \<le> nat R \<Longrightarrow> nat R < i + k \<Longrightarrow>
     \<exists>ts. poissonLoop lib R I k i time g = Inr ts \<and> length ts = k
          \<and> ts ! (nat R - i) = time + fst (exponential lib I g)
          \<and> (\<forall>j < nat R - i. ts ! j = time)"
proof (induction k arbitrary: i)
  case 0
  then show ?case by simp
next
  case (Suc k)
  have c: "(cmod (int i) R = 0) = (i mod nat R = 0)" using Suc.prems(1) by (rule cmod_nat)
  have R0: "R \<noteq> 0" using Suc.prems(1) by simp
  show ?case
  proof (cases "i = nat R")
    case True
    then have d: "cmod (int i) R = 0 \<and> i \<noteq> 0" unfolding c using Suc.prems(1) by simp
    from poissonLoop_total [OF R0, of lib I k "Suc i" "time + fst (exponential lib I g)"
        "snd (exponential lib I g)"]
    obtain ts where "poissonLoop lib R I k (Suc i) (time + fst (exponential lib I g))
        (snd (exponential lib I g)) = Inr ts" "length ts = k" by blast
    then have "poissonLoop lib R I (Suc k) i time g
        = Inr ((time + fst (exponential lib I g)) # ts)" "length ts = k"
      using d R0 by auto
    moreover have "nat R - i = 0" using True by simp
    ultimately show ?thesis by simp
  next
    case False
    with Suc.prems have lt: "i < nat R" by simp
    then have d: "\<not> (cmod (int i) R = 0 \<and> i \<noteq> 0)" unfolding c by auto
    from lt Suc.prems have "Suc i \<le> nat R" "nat R < Suc i + k" by simp_all
    from Suc.IH [OF Suc.prems(1) this] obtain ts where ts:
      "poissonLoop lib R I k (Suc i) time g = Inr ts" "length ts = k"
      "ts ! (nat R - Suc i) = time + fst (exponential lib I g)"
      "\<forall>j < nat R - Suc i. ts ! j = time" by blast
    have e: "poissonLoop lib R I (Suc k) i time g = Inr (time # ts)"
      using d R0 ts(1) by auto
    have n: "nat R - i = Suc (nat R - Suc i)" using lt by simp
    have "\<forall>j < nat R - i. (time # ts) ! j = time"
    proof (intro allI impI)
      fix j assume "j < nat R - i"
      then show "(time # ts) ! j = time" using ts(4) n by (cases j) auto
    qed
    then show ?thesis using e ts(2,3) n by simp
  qed
qed


text \<open>
  C8, as the code has it. With a positive arrival rate \<open>R\<close> and an interval \<open>I \<ge> 0\<close>
  (and no overflow of the 64-bit time), the uniform generator gives task \<open>i\<close> the arrival
  time \<open>I * (i div R)\<close>, a nondecreasing sequence; the Poisson generator gives a
  nondecreasing sequence as long as the running sum of the draws stays below \<open>2^64\<close>; the
  explicit generator gives task \<open>i\<close> the configured value \<open>explicitArrivalTimes[i]\<close> as it
  is, whatever the order of the configured values.
\<close>

theorem arrival_times_monotone:
  assumes "0 < R" and "0 \<le> I" and "I * int N < 2 ^ 64"
    and "sum_list (poissonIncrements lib R I N 0 (poissonGenerator lib rd seed)) < 2 ^ 64"
  shows "uniformArrival N R I = Inr (map (\<lambda>i. word_of_int (I * (int i div R))) [0..<N])
     \<and> sorted (map (\<lambda>i. word_of_int (I * (int i div R)) :: UInt64) [0..<N])
     \<and> (\<exists>ts. poissonArrival lib rd seed N R I = Inr ts \<and> length ts = N \<and> sorted ts)
     \<and> length (explicitArrival N cfg) = N
     \<and> (\<forall>i<N. explicitArrival N cfg ! i = word_of_int (cfg i))"
proof -
  have R0: "R \<noteq> 0" using assms(1) by simp
  have "unat (0 :: UInt64)
      + sum_list (poissonIncrements lib R I N 0 (poissonGenerator lib rd seed)) < 2 ^ 64"
    using assms(4) by simp
  from poissonLoop_sorted [OF R0 this]
  have p: "\<exists>ts. poissonArrival lib rd seed N R I = Inr ts \<and> length ts = N \<and> sorted ts"
    unfolding poissonArrival_def by blast
  have e: "length (explicitArrival N cfg) = N
      \<and> (\<forall>i<N. explicitArrival N cfg ! i = word_of_int (cfg i))"
    by (simp add: explicitArrival_def)
  show ?thesis
    using uniformArrival_formula [OF assms(1), of N I] sorted_uniform [OF assms(1-3)] p e
    by blast
qed



theorem arrival_times_monotone_witness:
  "uniformArrival 3 1 1000 = Inr [0, 1000, 2000]
   \<and> (\<exists>ts. poissonArrival
          \<lparr>mt19937_seed = nat, mt19937_next = (\<lambda>g. (0, Suc g)),
           exponential = (\<lambda>I g. (of_nat g, Suc g))\<rparr> 0 42 3 1 1000 = Inr ts
          \<and> length ts = 3 \<and> sorted ts)
   \<and> explicitArrival 3 ((!) [5, 3, 7]) ! 1 = 3"
proof -
  let ?lib = "\<lparr>mt19937_seed = nat, mt19937_next = (\<lambda>g. (0 :: 32 word, Suc g)),
           exponential = (\<lambda>(I :: int) g. (of_nat g :: UInt64, Suc g))\<rparr>"
  have h1: "0 < (1 :: int)" and h2: "0 \<le> (1000 :: int)"
    and h3: "(1000 :: int) * int 3 < 2 ^ 64" by simp_all
  have h4: "sum_list (poissonIncrements ?lib 1 1000 3 0 (poissonGenerator ?lib 0 42)) < 2 ^ 64"
    by (simp add: poissonGenerator_def numeral_3_eq_3 cmod_def)
  have u: "map (\<lambda>i. word_of_int (1000 * (int i div 1)) :: UInt64) [0..<3] = [0, 1000, 2000]"
    by (simp add: numeral_3_eq_3)
  note t = arrival_times_monotone [OF h1 h2 h3 h4, of "(!) [5, 3, 7]", unfolded u]
  from t have a: "uniformArrival 3 1 1000 = Inr [0, 1000, 2000]"
    by (elim conjE)
  from t have b: "\<exists>ts. poissonArrival ?lib 0 42 3 1 1000 = Inr ts \<and> length ts = 3 \<and> sorted ts"
    by (elim conjE)
  from t have "\<forall>i<3. explicitArrival 3 ((!) [5, 3, 7]) ! i = word_of_int ([5, 3, 7] ! i)"
    by (elim conjE)
  then have "explicitArrival 3 ((!) [5, 3, 7]) ! 1 = word_of_int ([5, 3, 7] ! 1)"
    by simp
  then have c: "explicitArrival 3 ((!) [5, 3, 7]) ! 1 = 3" by simp
  from a b c show ?thesis by (intro conjI)
qed

text \<open>
  C8, as the specification states it, fails for the explicit distribution: the configured
  times 5, 3 are assigned as they are, and decrease.
\<close>

theorem explicit_not_monotone_counterexample:
  "explicitArrival 2 ((!) [5, 3]) = [5, 3] \<and> \<not> sorted (explicitArrival 2 ((!) [5, 3]))"
proof -
  have "[0..<2] = [0, Suc 0]" by (simp add: numeral_2_eq_2)
  then show ?thesis by (simp add: explicitArrival_def)
qed

text \<open>
  C9. With a nonzero configured seed the Poisson arrival times do not depend on the random
  device: two runs with the same seed, rate, interval and number of tasks give the same
  list. The first output of the seeded generator is discarded: with \<open>0 < R < N\<close>, the tasks
  before task \<open>R\<close> arrive at 0 and task \<open>R\<close> arrives at the first exponential draw, which is
  taken from the generator state after one step.
\<close>

theorem poisson_seeded_deterministic:
  assumes "seed \<noteq> 0"
  shows "poissonArrival lib rd seed N R I = poissonArrival lib rd' seed N R I
     \<and> (0 < R \<and> nat R < N \<longrightarrow>
          (\<exists>ts. poissonArrival lib rd seed N R I = Inr ts \<and> length ts = N
             \<and> ts ! nat R
                 = fst (exponential lib I (snd (mt19937_next lib (mt19937_seed lib seed))))
             \<and> (\<forall>j<nat R. ts ! j = 0)))"
proof -
  have g: "\<And>r. poissonGenerator lib r seed = snd (mt19937_next lib (mt19937_seed lib seed))"
    using assms by (simp add: poissonGenerator_def)
  have a: "poissonArrival lib rd seed N R I = poissonArrival lib rd' seed N R I"
    by (simp add: poissonArrival_def g)
  have b: "0 < R \<and> nat R < N \<longrightarrow>
          (\<exists>ts. poissonArrival lib rd seed N R I = Inr ts \<and> length ts = N
             \<and> ts ! nat R
                 = fst (exponential lib I (snd (mt19937_next lib (mt19937_seed lib seed))))
             \<and> (\<forall>j<nat R. ts ! j = 0))"
  proof
    assume h: "0 < R \<and> nat R < N"
    then have "0 < R" "0 \<le> nat R" "nat R < 0 + N" by simp_all
    from poissonLoop_first_draw [OF this, of lib I 0
        "snd (mt19937_next lib (mt19937_seed lib seed))"]
    show "\<exists>ts. poissonArrival lib rd seed N R I = Inr ts \<and> length ts = N
             \<and> ts ! nat R
                 = fst (exponential lib I (snd (mt19937_next lib (mt19937_seed lib seed))))
             \<and> (\<forall>j<nat R. ts ! j = 0)"
      by (simp add: poissonArrival_def g)
  qed
  from a b show ?thesis by blast
qed


theorem poisson_seeded_deterministic_witness:
  "poissonArrival
      \<lparr>mt19937_seed = nat, mt19937_next = (\<lambda>g. (0, Suc g)),
       exponential = (\<lambda>I g. (of_nat g, Suc g))\<rparr> 7 42 3 1 1000
    = poissonArrival
      \<lparr>mt19937_seed = nat, mt19937_next = (\<lambda>g. (0, Suc g)),
       exponential = (\<lambda>I g. (of_nat g, Suc g))\<rparr> 8 42 3 1 1000
   \<and> (\<exists>ts. poissonArrival
      \<lparr>mt19937_seed = nat, mt19937_next = (\<lambda>g. (0, Suc g)),
       exponential = (\<lambda>I g. (of_nat g, Suc g))\<rparr> 7 42 3 1 1000 = Inr ts
       \<and> ts ! 0 = 0 \<and> ts ! 1 = 43)"
proof -
  let ?lib = "\<lparr>mt19937_seed = nat, mt19937_next = (\<lambda>g. (0 :: 32 word, Suc g)),
           exponential = (\<lambda>(I :: int) g. (of_nat g :: UInt64, Suc g))\<rparr>"
  have h: "(42 :: int) \<noteq> 0" by simp
  note t = poisson_seeded_deterministic [OF h, of ?lib 7 3 1 1000 8]
  from t have eq: "poissonArrival ?lib 7 42 3 1 1000 = poissonArrival ?lib 8 42 3 1 1000"
    by (rule conjunct1)
  have pre: "0 < (1 :: int) \<and> nat 1 < 3" by simp
  from mp [OF conjunct2 [OF t] pre]
  obtain ts where ts: "poissonArrival ?lib 7 42 3 1 1000 = Inr ts \<and> length ts = 3
    \<and> ts ! nat 1 = fst (exponential ?lib 1000 (snd (mt19937_next ?lib (mt19937_seed ?lib 42))))
    \<and> (\<forall>j<nat 1. ts ! j = 0)" ..
  from ts have a: "poissonArrival ?lib 7 42 3 1 1000 = Inr ts" by (rule conjunct1)
  from ts have b: "ts ! 1 = 43" by simp
  from ts have c: "ts ! 0 = 0" by simp
  from a c b have "poissonArrival ?lib 7 42 3 1 1000 = Inr ts \<and> ts ! 0 = 0 \<and> ts ! 1 = 43"
    by (intro conjI)
  then have "\<exists>ts. poissonArrival ?lib 7 42 3 1 1000 = Inr ts \<and> ts ! 0 = 0 \<and> ts ! 1 = 43"
    by (rule exI)
  with eq show ?thesis by (rule conjI)
qed

subsection \<open>The schedule operation\<close>

lemma executeMappingPolicy_False:
  "executeMappingPolicy pol s taskID = Inr (s', False) \<Longrightarrow> s' = s"
  by (auto simp: executeMappingPolicy_def Let_def split: if_splits)

text \<open>
  C2. Whenever \<open>schedule\<close> returns false for a task id in range: if the time is before
  the task's arrival time the whole state is unchanged; otherwise the task is left with
  \<open>waitingInQueue\<close> true and \<open>waitingToSchedule\<close> false; in every case the cores are
  unchanged, and so are the task's start time and active flag.
\<close>

theorem schedule_failure_atomic:
  assumes "0 \<le> taskID" and "taskID < numberOfTasks s"
    and "schedule pol h s taskID isInitialCall time = Inr (s', False)"
  shows "(time < taskArrivalTime (openTasks s ! nat taskID) \<longrightarrow> s' = s)
     \<and> (\<not> time < taskArrivalTime (openTasks s ! nat taskID) \<longrightarrow>
          waitingInQueue (openTasks s' ! nat taskID)
          \<and> \<not> waitingToSchedule (openTasks s' ! nat taskID))
     \<and> systemCores s' = systemCores s
     \<and> taskStartTime (openTasks s' ! nat taskID) = taskStartTime (openTasks s ! nat taskID)
     \<and> active (openTasks s' ! nat taskID) = active (openTasks s ! nat taskID)"
proof (cases "time < taskArrivalTime (openTasks s ! nat taskID)")
  case True
  with assms have "s' = s" by (simp add: schedule_def)
  with True show ?thesis by simp
next
  case False
  let ?s1 = "updateTask s taskID (\<lambda>t. t\<lparr>waitingInQueue := True, waitingToSchedule := False\<rparr>)"
  have "s' = ?s1"
    using assms False
    by (auto simp: schedule_def Let_def split: sum.splits if_splits prod.splits
        dest: executeMappingPolicy_False)
  moreover have "nat taskID < length (openTasks s)"
    using assms(1,2) by (simp add: numberOfTasks_def)
  ultimately show ?thesis using False by (simp add: updateTask_def)
qed

theorem schedule_failure_atomic_witness:
  "schedule (mapFirstUnused [0, 1, 2, 3]) exampleHost afterTask0 1 False 0
     = Inr (updateTask afterTask0 1 (\<lambda>t. t\<lparr>waitingInQueue := True, waitingToSchedule := False\<rparr>), False)
   \<and> systemCores (updateTask afterTask0 1 (\<lambda>t. t\<lparr>waitingInQueue := True, waitingToSchedule := False\<rparr>))
      = systemCores afterTask0"
proof -
  let ?s' = "updateTask afterTask0 1 (\<lambda>t. t\<lparr>waitingInQueue := True, waitingToSchedule := False\<rparr>)"
  have h1: "(0 :: int) \<le> 1" by simp
  have h2: "1 < numberOfTasks afterTask0" by (simp add: numberOfTasks_def afterTask0_def)
  have h3: "schedule (mapFirstUnused [0, 1, 2, 3]) exampleHost afterTask0 1 False 0 = Inr (?s', False)"
    by code_simp
  from schedule_failure_atomic [OF h1 h2 h3] h3 show ?thesis by simp
qed

subsection \<open>The queue\<close>

lemma firstIndexFrom_least:
  "firstIndexFrom P xs k = f \<Longrightarrow> k \<le> j \<Longrightarrow> j < f \<Longrightarrow> nat (j - k) < length xs \<Longrightarrow>
     \<not> P (xs ! nat (j - k))"
proof (induction xs arbitrary: k)
  case Nil
  then show ?case by simp
next
  case (Cons x xs)
  show ?case
  proof (cases "P x")
    case True
    with Cons.prems show ?thesis by simp
  next
    case False
    show ?thesis
    proof (cases "j = k")
      case True
      with False show ?thesis by simp
    next
      case ne: False
      with Cons.prems have k1: "k + 1 \<le> j" by simp
      then have n: "nat (j - k) = Suc (nat (j - (k + 1)))" by simp
      from Cons.prems False have "firstIndexFrom P xs (k + 1) = f" by simp
      from Cons.IH [OF this k1 Cons.prems(3)] Cons.prems(4) n
      show ?thesis by simp
    qed
  qed
qed

text \<open>
  Whenever \<open>schedule\<close> admits task \<open>j\<close> (returns true, with the task active and its start
  time the current time), no task with a smaller index is in the queue at that moment: an
  admitted task is the lowest-indexed queued task.
\<close>

lemma schedule_admits_queue_head:
  assumes "schedule pol h s taskID isInitialCall time = Inr (s', True)"
    and "0 \<le> i" and "i < taskID"
  shows "\<not> waitingInQueue (openTasks s ! nat i)
     \<and> active (openTasks s' ! nat taskID) \<and> taskStartTime (openTasks s' ! nat taskID) = time"
proof -
  let ?s1 = "updateTask s taskID (\<lambda>t. t\<lparr>waitingInQueue := True, waitingToSchedule := False\<rparr>)"
  from assms(1) have r: "0 \<le> taskID" "taskID < numberOfTasks s"
    by (auto simp: schedule_def split: if_splits)
  from assms(1) r have front: "firstIndexFrom waitingInQueue (openTasks ?s1) 0 = taskID"
    by (auto simp: schedule_def Let_def taskFrontOfQueue_def
        split: if_splits sum.splits prod.splits dest: executeMappingPolicy_False)
  have len: "nat (i - 0) < length (openTasks ?s1)"
    using r assms(2,3) by (simp add: updateTask_def numberOfTasks_def)
  from firstIndexFrom_least [OF front assms(2) assms(3) len]
  have "\<not> waitingInQueue (openTasks ?s1 ! nat i)" by simp
  moreover have "nat i \<noteq> nat taskID" using assms(2,3) by simp
  ultimately have a: "\<not> waitingInQueue (openTasks s ! nat i)"
    by (simp add: updateTask_def)
  from assms(1) r obtain s2 where s2: "executeMappingPolicy pol ?s1 taskID = Inr (s2, True)"
    and s': "s' = updateTask (if \<not> isInitialCall then fst (setAffinity h s2 taskID) else s2) taskID
                  (\<lambda>t. t\<lparr>taskStartTime := time, active := True,
                          waitingInQueue := False, waitingToSchedule := False\<rparr>)"
    by (auto simp: schedule_def Let_def split: if_splits sum.splits)
  have "length (openTasks s2) = length (openTasks s)"
    using openTasks_executeMappingPolicy [OF s2] by (simp add: updateTask_def)
  then have "nat taskID < length (openTasks (if \<not> isInitialCall then fst (setAffinity h s2 taskID) else s2))"
    using r by (auto simp add: openTasks_setAffinity numberOfTasks_def)
  then have "active (openTasks s' ! nat taskID) \<and> taskStartTime (openTasks s' ! nat taskID) = time"
    unfolding s' by (simp add: updateTask_def)
  with a show ?thesis by simp
qed


text \<open>
  C6, as the specification states it, fails. Three tasks of two cores each on six cores,
  explicit arrival times 0, 1000, 0, mapping epoch 1000: the threads of the three tasks are
  created at time 0 and the periodic hook runs at time 1000. Tasks 1 and 2 are both
  admitted, task 2 at time 0 and task 1 at time 1000.
\<close>

theorem fifo_overtaking_counterexample:
  "runHooks (mapFirstUnused [0, 1, 2, 3, 4, 5]) exampleHost
      (exampleState [(2, 0), (2, 1000), (2, 0)] [True, True, True, True, True, True] 1000)
      [ThreadCreate 0 0, ThreadCreate 1 0, ThreadCreate 2 0, Periodic 1000]
     = Inr overtaken
   \<and> active (openTasks overtaken ! 1) \<and> active (openTasks overtaken ! 2)
   \<and> taskStartTime (openTasks overtaken ! 2) < taskStartTime (openTasks overtaken ! 1)"
  by code_simp

subsection \<open>Free cores and the core mask\<close>

lemma policy_ok_mapFirstUnused:
  assumes "distinct preferredCoresOrder"
  shows "policy_ok (mapFirstUnused preferredCoresOrder)"
  unfolding policy_ok_def mapFirstUnused_def
proof (intro allI impI conjI ballI)
  fix name :: string and need :: int and available activeMask :: "bool list" and c
  let ?r = "take (nat need)
       (filter (\<lambda>c. 0 \<le> c \<and> nat c < length available \<and> available ! nat c)
          preferredCoresOrder)"
  assume h: "0 \<le> need \<and> need \<le> int (length ?r)"
  have "length ?r \<le> nat need" by simp
  with h show "int (length ?r) = need" by linarith
  show "distinct ?r" using assms by (simp add: distinct_take)
  assume "c \<in> set ?r"
  then have c: "c \<in> set (filter (\<lambda>c. 0 \<le> c \<and> nat c < length available \<and> available ! nat c)
          preferredCoresOrder)" by (rule in_set_takeD)
  from c show "0 \<le> c" by simp
  from c show "nat c < length available" by simp
  from c show "available ! nat c" by simp
qed

text \<open>
  C10. \<open>numberOfFreeCores\<close> is the number of cores minus the number of cores with a task
  assigned, whatever the core mask. In the state \<open>maskedState\<close> (two unassigned cores,
  the second one masked out, one task that needs two cores) the capacity check of
  \<open>schedule\<close> passes, only one core is available to the policy, and every policy that
  keeps its contract returns too few cores: \<open>schedule\<close> returns false with the task queued.
\<close>

theorem free_cores_ignore_mask:
  "numberOfFreeCores s
      = numberOfCores s - countWhere (\<lambda>c. assignedTaskID c \<noteq> - 1) (systemCores s)
   \<and> numberOfFreeCores (s\<lparr>m_core_mask := coreMask\<rparr>) = numberOfFreeCores s
   \<and> taskCoreRequirement (openTasks maskedState ! 0) \<le> numberOfFreeCores maskedState
   \<and> countWhere (\<lambda>b. b) (availableCores maskedState)
        < taskCoreRequirement (openTasks maskedState ! 0)
   \<and> (policy_ok pol \<longrightarrow>
        schedule pol h maskedState 0 isInitialCall 0
          = Inr (updateTask maskedState 0
                   (\<lambda>t. t\<lparr>waitingInQueue := True, waitingToSchedule := False\<rparr>), False))"
proof -
  have "length (filter (\<lambda>c. assignedTaskID c = - 1) (systemCores s))
      + length (filter (\<lambda>c. assignedTaskID c \<noteq> - 1) (systemCores s)) = length (systemCores s)"
    using sum_length_filter_compl [of "\<lambda>c. assignedTaskID c = - 1" "systemCores s"] by simp
  then have a: "numberOfFreeCores s
      = numberOfCores s - countWhere (\<lambda>c. assignedTaskID c \<noteq> - 1) (systemCores s)"
    by (simp add: numberOfFreeCores_def numberOfCores_def countWhere_def)
  have b: "numberOfFreeCores (s\<lparr>m_core_mask := coreMask\<rparr>) = numberOfFreeCores s"
    by (simp add: numberOfFreeCores_def)
  have c: "taskCoreRequirement (openTasks maskedState ! 0) \<le> numberOfFreeCores maskedState"
    by code_simp
  have d: "countWhere (\<lambda>b. b) (availableCores maskedState)
        < taskCoreRequirement (openTasks maskedState ! 0)"
    by code_simp
  let ?s1 = "updateTask maskedState 0 (\<lambda>t. t\<lparr>waitingInQueue := True, waitingToSchedule := False\<rparr>)"
  have e: "policy_ok pol \<longrightarrow> schedule pol h maskedState 0 isInitialCall 0 = Inr (?s1, False)"
  proof
    assume ok: "policy_ok pol"
    have av: "availableCores ?s1 = [True, False]" by code_simp
    have t: "taskCoreRequirement (openTasks ?s1 ! 0) = 2" by code_simp
    let ?r = "pol (taskName (openTasks ?s1 ! 0)) 2 [True, False] (activeCores ?s1)"
    have short: "int (length ?r) < 2"
    proof (rule ccontr)
      assume "\<not> int (length ?r) < 2"
      then have "(0 :: int) \<le> 2 \<and> 2 \<le> int (length ?r)" by simp
      with ok have r: "int (length ?r) = 2" "distinct ?r"
        "\<forall>c \<in> set ?r. 0 \<le> c \<and> nat c < length [True, False] \<and> [True, False] ! nat c"
        unfolding policy_ok_def by blast+
      have "\<forall>c \<in> set ?r. c = 0"
      proof
        fix c assume "c \<in> set ?r"
        with r(3) have c: "0 \<le> c" "nat c < 2" "[True, False] ! nat c" by auto
        from c(2,3) have "nat c = 0" by (cases "nat c") auto
        with c(1) show "c = 0" by simp
      qed
      then have "set ?r \<subseteq> {0}" by auto
      then have "card (set ?r) \<le> 1" using card_mono [of "{0 :: int}" "set ?r"] by simp
      with r(2) have "length ?r \<le> 1" by (simp add: distinct_card)
      with r(1) show False by simp
    qed
    have "executeMappingPolicy pol ?s1 0 = Inr (?s1, False)"
      using short by (simp add: executeMappingPolicy_def Let_def av t)
    moreover have "taskFrontOfQueue ?s1 = Inr 0" by code_simp
    moreover have "numberOfFreeCores ?s1 = 2" by code_simp
    moreover have "numberOfTasks maskedState = 1" by code_simp
    moreover have "taskArrivalTime (openTasks maskedState ! 0) = 0" by code_simp
    ultimately show "schedule pol h maskedState 0 isInitialCall 0 = Inr (?s1, False)"
      using t by (simp add: schedule_def Let_def)
  qed
  from a b c d e show ?thesis by (intro conjI)
qed

theorem free_cores_ignore_mask_witness:
  "schedule (mapFirstUnused [0, 1]) exampleHost maskedState 0 True 0
     = Inr (updateTask maskedState 0
              (\<lambda>t. t\<lparr>waitingInQueue := True, waitingToSchedule := False\<rparr>), False)
   \<and> numberOfFreeCores maskedState = 2
   \<and> taskCoreRequirement (openTasks maskedState ! 0) = 2
   \<and> availableCores maskedState = [True, False]"
proof -
  have "distinct [0 :: int, 1]" by simp
  then have ok: "policy_ok (mapFirstUnused [0, 1])" by (rule policy_ok_mapFirstUnused)
  note t = free_cores_ignore_mask [of maskedState "[True, False]" "mapFirstUnused [0, 1]"
      exampleHost True]
  from t have "policy_ok (mapFirstUnused [0, 1]) \<longrightarrow>
        schedule (mapFirstUnused [0, 1]) exampleHost maskedState 0 True 0
          = Inr (updateTask maskedState 0
                   (\<lambda>t. t\<lparr>waitingInQueue := True, waitingToSchedule := False\<rparr>), False)"
    by (elim conjE)
  with ok have a: "schedule (mapFirstUnused [0, 1]) exampleHost maskedState 0 True 0
          = Inr (updateTask maskedState 0
                   (\<lambda>t. t\<lparr>waitingInQueue := True, waitingToSchedule := False\<rparr>), False)"
    by (rule rev_mp)
  have b: "numberOfFreeCores maskedState = 2" by code_simp
  have c: "taskCoreRequirement (openTasks maskedState ! 0) = 2" by code_simp
  have d: "availableCores maskedState = [True, False]" by code_simp
  from a b c d show ?thesis by (intro conjI)
qed

subsection \<open>The empty-system time jump\<close>

text \<open>
  C5 fails on the code. Task 1 arrived at time 1000 and is still WaitingToSchedule when
  the last thread of task 0 exits at time 5000 and the system goes empty. The jump
  \<open>1000 - 5000\<close> wraps around to \<open>2^64 - 4000\<close>, and subtracting it moves the arrival
  time of task 1 up from 1000 to 5000: the adjusted arrival time is greater than its
  previous value.
\<close>

theorem time_jump_raises_arrival:
  "threadExit (mapFirstUnused [0, 1]) exampleHost lateExit 0 5000 = Inr lateExitResult
   \<and> nextArrivalLoop (openTasks lateExit) 0 - 5000 = 18446744073709547616
   \<and> taskArrivalTime (openTasks lateExit ! 1) = 1000
   \<and> taskArrivalTime (openTasks lateExitResult ! 1) = 5000
   \<and> taskArrivalTime (openTasks lateExit ! 1) < taskArrivalTime (openTasks lateExitResult ! 1)"
  by code_simp

subsection \<open>Threads, cores and tasks\<close>

lemma ball_mapI: "\<forall>c \<in> set xs. P (f c) \<Longrightarrow> \<forall>c \<in> set (map f xs). P c"
  by simp

lemma firstIndexFrom_hit:
  "firstIndexFrom P xs i \<noteq> - 1 \<Longrightarrow> 0 \<le> i \<Longrightarrow>
     i \<le> firstIndexFrom P xs i \<and> firstIndexFrom P xs i < i + int (length xs)
       \<and> P (xs ! nat (firstIndexFrom P xs i - i))"
proof (induction xs arbitrary: i)
  case Nil
  then show ?case by simp
next
  case (Cons x xs)
  show ?case
  proof (cases "P x")
    case True
    then show ?thesis by simp
  next
    case False
    with Cons.prems have "firstIndexFrom P xs (i + 1) \<noteq> - 1" "0 \<le> i + 1" by simp_all
    from Cons.IH [OF this]
    have ih: "i + 1 \<le> firstIndexFrom P xs (i + 1)"
      "firstIndexFrom P xs (i + 1) < i + 1 + int (length xs)"
      "P (xs ! nat (firstIndexFrom P xs (i + 1) - (i + 1)))" by simp_all
    from ih(1) have "nat (firstIndexFrom P xs (i + 1) - i)
        = Suc (nat (firstIndexFrom P xs (i + 1) - (i + 1)))" by simp
    with ih False show ?thesis by simp
  qed
qed

lemma assignCores_length: "length (assignCores cores bestCores taskID) = length cores"
  by (induction bestCores arbitrary: cores) simp_all

lemma assignCores_nth:
  "\<forall>c \<in> set bestCores. 0 \<le> c \<and> nat c < length cores \<Longrightarrow> i < length cores \<Longrightarrow>
     assignCores cores bestCores taskID ! i
       = (if int i \<in> set bestCores then (cores ! i)\<lparr>assignedTaskID := taskID\<rparr> else cores ! i)"
proof (induction bestCores arbitrary: cores)
  case Nil
  then show ?case by simp
next
  case (Cons c bestCores)
  let ?cores = "cores[nat c := (cores ! nat c)\<lparr>assignedTaskID := taskID\<rparr>]"
  from Cons.prems have c: "0 \<le> c" "nat c < length cores" by simp_all
  have "\<forall>c \<in> set bestCores. 0 \<le> c \<and> nat c < length ?cores" using Cons.prems(1) by simp
  moreover have "i < length ?cores" using Cons.prems(2) by simp
  ultimately have ih: "assignCores ?cores bestCores taskID ! i
       = (if int i \<in> set bestCores then (?cores ! i)\<lparr>assignedTaskID := taskID\<rparr> else ?cores ! i)"
    by (rule Cons.IH)
  show ?case
  proof (cases "i = nat c")
    case True
    with c have "int i = c" by simp
    with ih True c show ?thesis by simp
  next
    case False
    with c have "int i \<noteq> c" by auto
    with ih False show ?thesis by simp
  qed
qed

lemma consistent_setAffinity:
  assumes "threadTaskConsistent h s" and "getAppId h thread_id \<noteq> - 1"
  shows "threadTaskConsistent h (fst (setAffinity h s thread_id))"
proof -
  let ?P = "\<lambda>c. assignedTaskID c = getAppId h thread_id \<and> assignedThreadID c = - 1"
  let ?f = "firstIndexFrom ?P (systemCores s) 0"
  show ?thesis
  proof (cases "?f = - 1")
    case True
    with assms(1) show ?thesis by (simp add: setAffinity_def Let_def)
  next
    case False
    from firstIndexFrom_hit [OF False]
    have f0: "0 \<le> ?f" "?f < int (length (systemCores s))" "?P (systemCores s ! nat ?f)"
      by simp_all
    from f0(1,2) have "nat ?f < length (systemCores s)" by linarith
    note f = f0(1) this f0(3)
    let ?c = "(systemCores s ! nat ?f)\<lparr>assignedThreadID := thread_id\<rparr>"
    have cores: "systemCores (fst (setAffinity h s thread_id)) = (systemCores s)[nat ?f := ?c]"
      using False by (simp add: setAffinity_def Let_def)
    have "\<forall>c \<in> set ((systemCores s)[nat ?f := ?c]). assignedThreadID c \<noteq> - 1 \<longrightarrow>
          assignedTaskID c \<noteq> - 1 \<and> getAppId h (assignedThreadID c) = assignedTaskID c"
    proof
      fix c assume "c \<in> set ((systemCores s)[nat ?f := ?c])"
      then have "c = ?c \<or> c \<in> set (systemCores s)"
        using set_update_subset_insert [of "systemCores s" "nat ?f" ?c] by auto
      then show "assignedThreadID c \<noteq> - 1 \<longrightarrow>
          assignedTaskID c \<noteq> - 1 \<and> getAppId h (assignedThreadID c) = assignedTaskID c"
      proof
        assume "c = ?c"
        with f(3) assms(2) show ?thesis by simp
      next
        assume "c \<in> set (systemCores s)"
        with assms(1) show ?thesis by (simp add: threadTaskConsistent_def)
      qed
    qed
    then show ?thesis unfolding threadTaskConsistent_def cores .
  qed
qed

lemma consistent_cores_eq:
  "systemCores s' = systemCores s \<Longrightarrow> threadTaskConsistent h s' = threadTaskConsistent h s"
  by (simp add: threadTaskConsistent_def)

lemma availableCores_nth:
  "i < length (systemCores s) \<Longrightarrow>
     availableCores s ! i = (m_core_mask s ! i \<and> assignedTaskID (systemCores s ! i) = - 1)"
  by (simp add: availableCores_def isAssignedToTask_def)

lemma consistent_executeMappingPolicy:
  assumes "threadTaskConsistent h s" and "policy_available pol"
    and "executeMappingPolicy pol s taskID = Inr (s', ok)"
  shows "threadTaskConsistent h s'"
proof (cases ok)
  case False
  with assms(3) have "s' = s" by (simp add: executeMappingPolicy_False)
  with assms(1) show ?thesis by simp
next
  case True
  let ?best = "pol (taskName (openTasks s ! nat taskID))
      (taskCoreRequirement (openTasks s ! nat taskID)) (availableCores s) (activeCores s)"
  from assms(3) True have cores: "systemCores s' = assignCores (systemCores s) ?best taskID"
    by (auto simp: executeMappingPolicy_def Let_def split: if_splits)
  have av: "\<forall>c \<in> set ?best. 0 \<le> c \<and> nat c < length (systemCores s)
      \<and> assignedTaskID (systemCores s ! nat c) = - 1"
  proof
    fix c assume "c \<in> set ?best"
    with assms(2) have c: "0 \<le> c" "nat c < length (availableCores s)" "availableCores s ! nat c"
      unfolding policy_available_def by blast+
    from c(2) have "nat c < length (systemCores s)" by (simp add: availableCores_def)
    with c show "0 \<le> c \<and> nat c < length (systemCores s)
      \<and> assignedTaskID (systemCores s ! nat c) = - 1" by (simp add: availableCores_nth)
  qed
  have "\<forall>c \<in> set (assignCores (systemCores s) ?best taskID). assignedThreadID c \<noteq> - 1 \<longrightarrow>
          assignedTaskID c \<noteq> - 1 \<and> getAppId h (assignedThreadID c) = assignedTaskID c"
  proof
    fix c assume "c \<in> set (assignCores (systemCores s) ?best taskID)"
    then obtain i where i: "i < length (systemCores s)"
      "c = assignCores (systemCores s) ?best taskID ! i"
      by (auto simp: in_set_conv_nth assignCores_length)
    have old: "assignedThreadID (systemCores s ! i) \<noteq> - 1 \<longrightarrow>
          assignedTaskID (systemCores s ! i) \<noteq> - 1
          \<and> getAppId h (assignedThreadID (systemCores s ! i)) = assignedTaskID (systemCores s ! i)"
      using assms(1) i(1) by (simp add: threadTaskConsistent_def)
    have nth: "c = (if int i \<in> set ?best then (systemCores s ! i)\<lparr>assignedTaskID := taskID\<rparr>
         else systemCores s ! i)"
      unfolding i(2) using av i(1) by (intro assignCores_nth) auto
    show "assignedThreadID c \<noteq> - 1 \<longrightarrow>
          assignedTaskID c \<noteq> - 1 \<and> getAppId h (assignedThreadID c) = assignedTaskID c"
    proof (cases "int i \<in> set ?best")
      case True
      with av have "assignedTaskID (systemCores s ! i) = - 1" by fastforce
      with old have "assignedThreadID (systemCores s ! i) = - 1" by blast
      with nth True show ?thesis by simp
    next
      case False
      with nth old show ?thesis by simp
    qed
  qed
  then show ?thesis unfolding threadTaskConsistent_def cores .
qed

lemma consistent_schedule:
  assumes "threadTaskConsistent h s" and "policy_available pol" and "\<forall>t. getAppId h t \<noteq> - 1"
    and "schedule pol h s taskID isInitialCall time = Inr (s', ok)"
  shows "threadTaskConsistent h s'"
proof -
  let ?s1 = "updateTask s taskID (\<lambda>t. t\<lparr>waitingInQueue := True, waitingToSchedule := False\<rparr>)"
  have c1: "threadTaskConsistent h ?s1"
    using assms(1) by (simp add: threadTaskConsistent_def updateTask_def)
  from assms(4) consider "s' = s" | "s' = ?s1"
    | s2 where "executeMappingPolicy pol ?s1 taskID = Inr (s2, True)"
        "s' = updateTask (if \<not> isInitialCall then fst (setAffinity h s2 taskID) else s2) taskID
                  (\<lambda>t. t\<lparr>taskStartTime := time, active := True,
                          waitingInQueue := False, waitingToSchedule := False\<rparr>)"
    by (auto simp: schedule_def Let_def split: if_splits sum.splits prod.splits
        dest: executeMappingPolicy_False)
  then show ?thesis
  proof cases
    case 1
    with assms(1) show ?thesis by simp
  next
    case 2
    with c1 show ?thesis by simp
  next
    case 3
    from consistent_executeMappingPolicy [OF c1 assms(2) 3(1)]
    have c2: "threadTaskConsistent h s2" .
    with assms(3) have "threadTaskConsistent h (fst (setAffinity h s2 taskID))"
      by (simp add: consistent_setAffinity)
    with c2 have "threadTaskConsistent h
        (if \<not> isInitialCall then fst (setAffinity h s2 taskID) else s2)" by simp
    then show ?thesis unfolding 3(2) by (simp add: threadTaskConsistent_def updateTask_def)
  qed
qed


lemma consistent_scheduleFront:
  assumes "threadTaskConsistent h s" and "policy_available pol" and "\<forall>t. getAppId h t \<noteq> - 1"
    and "scheduleFront pol h s time = Inr (s', ok)"
  shows "threadTaskConsistent h s'"
proof -
  from assms(4) obtain front where "schedule pol h s front False time = Inr (s', ok)"
    by (auto simp: scheduleFront_def split: sum.splits)
  from consistent_schedule [OF assms(1-3) this] show ?thesis .
qed

lemma consistent_emptySystemPrefetch:
  assumes "threadTaskConsistent h s" and "policy_available pol" and "\<forall>t. getAppId h t \<noteq> - 1"
    and "emptySystemPrefetch pol h s time = Inr s'"
  shows "threadTaskConsistent h s'"
proof -
  let ?s2 = "fetchTasksIntoQueue
      (readjustArrivalTimes s (nextArrivalLoop (openTasks s) 0 - time)) time"
  have c2: "threadTaskConsistent h ?s2"
    using assms(1)
    by (simp add: threadTaskConsistent_def fetchTasksIntoQueue_def readjustArrivalTimes_def)
  from assms(4) consider "s' = s"
    | ok where "scheduleFront pol h s time = Inr (s', ok)"
    | ok where "scheduleFront pol h ?s2 time = Inr (s', ok)"
    by (auto simp: emptySystemPrefetch_def Let_def split: if_splits sum.splits)
  then show ?thesis
  proof cases
    case 1
    with assms(1) show ?thesis by simp
  next
    case 2
    from consistent_scheduleFront [OF assms(1-3) this] show ?thesis .
  next
    case 3
    from consistent_scheduleFront [OF c2 assms(2,3) this] show ?thesis .
  qed
qed

lemma consistent_releaseThread:
  "threadTaskConsistent h s \<Longrightarrow> threadTaskConsistent h (releaseThread s thread_id)"
  by (auto simp: threadTaskConsistent_def releaseThread_def)

lemma consistent_threadExit:
  assumes "threadTaskConsistent h s" and "policy_available pol" and "\<forall>t. getAppId h t \<noteq> - 1"
    and "lastThreadOfTask h s (ThreadExit thread_id time)"
    and "threadExit pol h s thread_id time = Inr s'"
  shows "threadTaskConsistent h s'"
proof -
  let ?s1 = "releaseThread s thread_id"
  let ?app = "getAppId h thread_id"
  let ?s2 = "updateTask (releaseTask ?s1 ?app) ?app
      (\<lambda>t. t\<lparr>taskDepartureTime := time, completed := True, active := False\<rparr>)"
  have c1: "threadTaskConsistent h ?s1" using assms(1) by (rule consistent_releaseThread)
  have n1: "numberOfTasks ?s1 = numberOfTasks s" by (simp add: numberOfTasks_def releaseThread_def)
  have c2: "thread_id < numberOfTasks s \<Longrightarrow> threadTaskConsistent h ?s2"
  proof -
    assume "thread_id < numberOfTasks s"
    with assms(4) have alone: "\<forall>c \<in> set (systemCores s). assignedTaskID c = ?app \<longrightarrow>
             assignedThreadID c = - 1 \<or> assignedThreadID c = thread_id" by simp
    let ?g = "\<lambda>c. if assignedThreadID c = thread_id then c\<lparr>assignedThreadID := - 1\<rparr> else c"
    let ?r = "\<lambda>c. if assignedTaskID c = ?app then c\<lparr>assignedTaskID := - 1\<rparr> else c"
    have cores: "systemCores (releaseTask ?s1 ?app) = map (\<lambda>c. ?r (?g c)) (systemCores s)"
      by (simp add: releaseTask_def releaseThread_def)
    have "\<forall>c \<in> set (systemCores s). assignedThreadID (?r (?g c)) \<noteq> - 1 \<longrightarrow>
          assignedTaskID (?r (?g c)) \<noteq> - 1
          \<and> getAppId h (assignedThreadID (?r (?g c))) = assignedTaskID (?r (?g c))"
    proof
      fix c assume c: "c \<in> set (systemCores s)"
      from c assms(1) have old: "assignedThreadID c \<noteq> - 1 \<longrightarrow>
          assignedTaskID c \<noteq> - 1 \<and> getAppId h (assignedThreadID c) = assignedTaskID c"
        by (simp add: threadTaskConsistent_def)
      from c alone have al: "assignedTaskID c = ?app \<longrightarrow>
             assignedThreadID c = - 1 \<or> assignedThreadID c = thread_id" by simp
      show "assignedThreadID (?r (?g c)) \<noteq> - 1 \<longrightarrow>
          assignedTaskID (?r (?g c)) \<noteq> - 1
          \<and> getAppId h (assignedThreadID (?r (?g c))) = assignedTaskID (?r (?g c))"
      proof (cases "assignedTaskID c = ?app")
        case True
        with al have "assignedThreadID (?g c) = - 1" by auto
        then show ?thesis by simp
      next
        case False
        then have "?r (?g c) = ?g c" by simp
        with old show ?thesis by simp
      qed
    qed
    then have "\<forall>c \<in> set (systemCores (releaseTask ?s1 ?app)). assignedThreadID c \<noteq> - 1 \<longrightarrow>
          assignedTaskID c \<noteq> - 1 \<and> getAppId h (assignedThreadID c) = assignedTaskID c"
      unfolding cores by (rule ball_mapI)
    then show "threadTaskConsistent h ?s2"
      by (simp add: threadTaskConsistent_def updateTask_def)
  qed
  from assms(5) consider "thread_id < numberOfTasks s" "emptySystemPrefetch pol h ?s2 time = Inr s'"
    | "emptySystemPrefetch pol h ?s1 time = Inr s'"
    unfolding threadExit_def Let_def n1
    by (auto split: if_splits sum.splits)
  then show ?thesis
  proof cases
    case 1
    from consistent_emptySystemPrefetch [OF c2 [OF 1(1)] assms(2,3) 1(2)] show ?thesis .
  next
    case 2
    from consistent_emptySystemPrefetch [OF c1 assms(2,3) 2] show ?thesis .
  qed
qed

lemma consistent_drainQueue:
  "policy_available pol \<Longrightarrow> \<forall>t. getAppId h t \<noteq> - 1 \<Longrightarrow> threadTaskConsistent h s \<Longrightarrow>
     drainQueue pol h s time = Inr s' \<Longrightarrow> threadTaskConsistent h s'"
proof (induction pol h s time rule: drainQueue.induct)
  case (1 pol h s time)
  show ?case
  proof (cases "numberOfTasksInQueue s \<noteq> 0")
    case False
    with "1.prems" show ?thesis by (simp add: drainQueue.simps [of pol h s time])
  next
    case True
    with "1.prems"(4) obtain s1 ok where sf: "scheduleFront pol h s time = Inr (s1, ok)"
      and rest: "(if ok then drainQueue pol h s1 time else Inr s1) = Inr s'"
      by (simp add: drainQueue.simps [of pol h s time] split: sum.splits prod.splits)
    from consistent_scheduleFront [OF "1.prems"(3,1,2) sf]
    have c1: "threadTaskConsistent h s1" .
    show ?thesis
    proof (cases ok)
      case False
      with rest c1 show ?thesis by simp
    next
      case ok: True
      with rest have "drainQueue pol h s1 time = Inr s'" by simp
      from "1.IH" [OF True sf refl ok "1.prems"(1,2) c1 this] show ?thesis .
    qed
  qed
qed

lemma periodic_cases:
  assumes "periodic pol h s time = Inr s'"
  shows "s' = s \<or> drainQueue pol h (fetchTasksIntoQueue s time) time = Inr s'"
proof -
  have g: "\<And>A B C D x y z X. (if A then Inl x else if B then Inl y else if C then Inl z
        else if D then X else Inr s) = Inr s' \<Longrightarrow> s' = s \<or> X = Inr s'"
    by (auto split: if_splits)
  from assms show ?thesis unfolding periodic_def by (rule g)
qed

lemma consistent_periodic:
  assumes "threadTaskConsistent h s" and "policy_available pol" and "\<forall>t. getAppId h t \<noteq> - 1"
    and "periodic pol h s time = Inr s'"
  shows "threadTaskConsistent h s'"
proof -
  have cf: "threadTaskConsistent h (fetchTasksIntoQueue s time)"
    using assms(1) by (simp add: threadTaskConsistent_def fetchTasksIntoQueue_def)
  from periodic_cases [OF assms(4)]
  consider "s' = s" | "drainQueue pol h (fetchTasksIntoQueue s time) time = Inr s'"
    by blast
  then show ?thesis
  proof cases
    case 1
    with assms(1) show ?thesis by simp
  next
    case 2
    from consistent_drainQueue [OF assms(2,3) cf 2] show ?thesis .
  qed
qed

lemma consistent_threadCreate:
  assumes "threadTaskConsistent h s" and "policy_available pol" and "\<forall>t. getAppId h t \<noteq> - 1"
    and "threadCreate pol h s thread_id time = Inr (s', core)"
  shows "threadTaskConsistent h s'"
proof -
  from assms(4) obtain s1 where s1: "s1 = s \<or> (\<exists>taskID ok. schedule pol h s taskID True time = Inr (s1, ok))"
    and s': "s' = fst (setAffinity h s1 thread_id)"
    by (auto simp: threadCreate_def Let_def split: if_splits sum.splits prod.splits)
  from s1 have "threadTaskConsistent h s1"
    using assms(1) consistent_schedule [OF assms(1-3)] by blast
  with assms(3) show ?thesis unfolding s' by (simp add: consistent_setAffinity)
qed

text \<open>
  C7, as the code has it. Let the policy return available cores only, let every thread
  have an application id (not the sentinel \<open>-1\<close>), and let the thread that exits in
  \<open>thread_exit\<close>, when it is the primary thread of a task, be the last thread attached to
  a core of that task. Then every public hook that returns keeps the invariant: a core
  with a thread attached has a task assigned, and the application id of the thread is that
  task id.
\<close>

theorem thread_task_consistency:
  assumes "threadTaskConsistent h s" and "policy_available pol" and "\<forall>t. getAppId h t \<noteq> - 1"
    and "lastThreadOfTask h s call"
    and "hook pol h s call = Inr s'"
  shows "threadTaskConsistent h s'"
proof (cases call)
  case (Schedule taskID isInitialCall time)
  with assms(5) obtain ok where "schedule pol h s taskID isInitialCall time = Inr (s', ok)"
    by (auto split: sum.splits)
  from consistent_schedule [OF assms(1-3) this] show ?thesis .
next
  case (SetAffinity thread_id)
  with assms(5) have "s' = fst (setAffinity h s thread_id)" by simp
  with assms(1,3) show ?thesis by (simp add: consistent_setAffinity)
next
  case (ThreadCreate thread_id time)
  with assms(5) obtain core where "threadCreate pol h s thread_id time = Inr (s', core)"
    by (auto split: sum.splits)
  from consistent_threadCreate [OF assms(1-3) this] show ?thesis .
next
  case (ThreadExit thread_id time)
  with assms(4,5) have "lastThreadOfTask h s (ThreadExit thread_id time)"
    "threadExit pol h s thread_id time = Inr s'" by simp_all
  from consistent_threadExit [OF assms(1-3) this] show ?thesis .
next
  case (Periodic time)
  with assms(5) have "periodic pol h s time = Inr s'" by simp
  from consistent_periodic [OF assms(1-3) this] show ?thesis .
qed


lemma policy_available_mapFirstUnused: "policy_available (mapFirstUnused preferredCoresOrder)"
  unfolding policy_available_def mapFirstUnused_def
proof (intro allI ballI)
  fix name :: string and need :: int and available activeMask :: "bool list" and c
  assume "c \<in> set (take (nat need)
       (filter (\<lambda>c. 0 \<le> c \<and> nat c < length available \<and> available ! nat c)
          preferredCoresOrder))"
  then have "c \<in> set (filter (\<lambda>c. 0 \<le> c \<and> nat c < length available \<and> available ! nat c)
          preferredCoresOrder)" by (rule in_set_takeD)
  then show "0 \<le> c \<and> nat c < length available \<and> available ! nat c" by simp
qed

theorem thread_task_consistency_witness:
  "hook (mapFirstUnused [0, 1]) singleAppHost oneTaskStarted (ThreadExit 0 5000) = Inr oneTaskDone
   \<and> threadTaskConsistent singleAppHost oneTaskStarted
   \<and> threadTaskConsistent singleAppHost oneTaskDone"
proof -
  have h1: "threadTaskConsistent singleAppHost oneTaskStarted" by code_simp
  have h2: "policy_available (mapFirstUnused [0, 1])" by (rule policy_available_mapFirstUnused)
  have h3: "\<forall>t. getAppId singleAppHost t \<noteq> - 1" by (simp add: singleAppHost_def)
  have h4: "lastThreadOfTask singleAppHost oneTaskStarted (ThreadExit 0 5000)" by code_simp
  have h5: "hook (mapFirstUnused [0, 1]) singleAppHost oneTaskStarted (ThreadExit 0 5000)
      = Inr oneTaskDone" by code_simp
  from thread_task_consistency [OF h1 h2 h3 h4 h5] h1 h5 show ?thesis by (intro conjI)
qed

text \<open>
  C7, as the specification states it, fails. One task on two cores: the primary thread 0
  and a worker thread 1 of the task are created, then the primary thread exits first.
  \<open>threadExit\<close> releases both cores from the task and detaches thread 0 only: core 1 is
  left without a task and with thread 1 attached.
\<close>

theorem thread_task_consistency_counterexample:
  "runHooks (mapFirstUnused [0, 1]) singleAppHost (exampleState [(2, 0)] [True, True] 1000000)
      [ThreadCreate 0 0, ThreadCreate 1 0, ThreadExit 0 5000] = Inr workerLeft
   \<and> \<not> threadTaskConsistent singleAppHost workerLeft"
  by code_simp

subsection \<open>The capacity invariant\<close>

lemma countWhere_count_list: "countWhere (\<lambda>c. f c = v) xs = int (count_list (map f xs) v)"
  by (induction xs) (simp_all add: countWhere_def)

lemma countWhere_compl: "countWhere P xs + countWhere (\<lambda>x. \<not> P x) xs = int (length xs)"
  using sum_length_filter_compl [of P xs] by (simp add: countWhere_def)

lemma count_list_partition:
  "\<forall>x \<in> set xs. x = - 1 \<or> (0 \<le> x \<and> x < int n) \<Longrightarrow>
     length (filter (\<lambda>x. x \<noteq> - 1) xs) = (\<Sum>i<n. count_list xs (int i))"
proof (induction xs)
  case Nil
  then show ?case by simp
next
  case (Cons x xs)
  then have ih: "length (filter (\<lambda>x. x \<noteq> - 1) xs) = (\<Sum>i<n. count_list xs (int i))" by simp
  have "(\<Sum>i<n. count_list (x # xs) (int i))
      = (\<Sum>i<n. (if x = int i then 1 else 0) + count_list xs (int i))"
    by (intro sum.cong) auto
  also have "\<dots> = (\<Sum>i<n. if x = int i then 1 else 0) + (\<Sum>i<n. count_list xs (int i))"
    by (simp add: sum.distrib)
  finally have s: "(\<Sum>i<n. count_list (x # xs) (int i))
      = (\<Sum>i<n. if x = int i then 1 else 0) + (\<Sum>i<n. count_list xs (int i))" .
  show ?case
  proof (cases "x = - 1")
    case True
    then have "(\<Sum>i<n. if x = int i then 1 else (0 :: nat)) = 0" by simp
    with s ih True show ?thesis by simp
  next
    case False
    with Cons.prems have r: "0 \<le> x" "x < int n" by auto
    have "(\<Sum>i<n. if x = int i then 1 else (0 :: nat))
        = (\<Sum>i<n. if i = nat x then 1 else 0)"
      using r by (intro sum.cong) auto
    also have "\<dots> = 1" using r by simp
    finally show ?thesis using s ih False by simp
  qed
qed

lemma total_as_sum:
  "totalCoreRequirementsOfActiveTasks s
     = (\<Sum>i<length (openTasks s).
          if active (openTasks s ! i) then taskCoreRequirement (openTasks s ! i) else 0)"
proof -
  let ?f = "\<lambda>t. if active t then taskCoreRequirement t else 0"
  have "sum_list (map ?f (openTasks s))
      = (\<Sum>i = 0..<length (map ?f (openTasks s)). map ?f (openTasks s) ! i)"
    by (rule sum_list_sum_nth)
  also have "\<dots> = (\<Sum>i<length (openTasks s). ?f (openTasks s ! i))"
    by (intro sum.cong) (auto simp: atLeast0LessThan)
  finally show ?thesis by (simp add: totalCoreRequirementsOfActiveTasks_def)
qed

lemma capacityConsistent_capacity:
  assumes "capacityConsistent s"
  shows "capacity s"
proof -
  from assms have r: "\<forall>x \<in> set (coreTasks s). x = - 1 \<or> (0 \<le> x \<and> x < int (length (openTasks s)))"
    and c: "\<forall>i < length (openTasks s). int (count_list (coreTasks s) (int i))
              = (if active (openTasks s ! i) then taskCoreRequirement (openTasks s ! i) else 0)"
    by (simp_all add: capacityConsistent_def numberOfTasks_def)
  have "countWhere (\<lambda>c. assignedTaskID c \<noteq> - 1) (systemCores s)
      = int (length (filter (\<lambda>x. x \<noteq> - 1) (coreTasks s)))"
    by (simp add: countWhere_def coreTasks_def filter_map comp_def)
  also have "\<dots> = int (\<Sum>i<length (openTasks s). count_list (coreTasks s) (int i))"
    using count_list_partition [OF r] by simp
  also have "\<dots> = (\<Sum>i<length (openTasks s). int (count_list (coreTasks s) (int i)))"
    by simp
  also have "\<dots> = (\<Sum>i<length (openTasks s).
          if active (openTasks s ! i) then taskCoreRequirement (openTasks s ! i) else 0)"
    using c by (intro sum.cong) auto
  finally have a: "countWhere (\<lambda>c. assignedTaskID c \<noteq> - 1) (systemCores s)
      = totalCoreRequirementsOfActiveTasks s" by (simp add: total_as_sum)
  have "numberOfFreeCores s + countWhere (\<lambda>c. assignedTaskID c \<noteq> - 1) (systemCores s)
      = numberOfCores s"
    using countWhere_compl [of "\<lambda>c. assignedTaskID c = - 1" "systemCores s"]
    by (simp add: numberOfFreeCores_def numberOfCores_def)
  with a show ?thesis by (simp add: capacity_def)
qed


lemma capacityConsistent_flags:
  assumes "capacityConsistent s" and "coreTasks s' = coreTasks s"
    and "length (openTasks s') = length (openTasks s)"
    and "\<forall>i < length (openTasks s).
           active (openTasks s' ! i) = active (openTasks s ! i)
           \<and> taskCoreRequirement (openTasks s' ! i) = taskCoreRequirement (openTasks s ! i)
           \<and> (active (openTasks s ! i) \<longrightarrow>
                \<not> waitingInQueue (openTasks s' ! i) \<and> \<not> waitingToSchedule (openTasks s' ! i))"
  shows "capacityConsistent s'"
  using assms unfolding capacityConsistent_def numberOfTasks_def by simp

lemma map_update_same: "(map f xs)[i := f (xs ! i)] = map f xs"
  by (metis list_update_id map_update)

lemma coreTasks_setAffinity: "coreTasks (fst (setAffinity h s thread_id)) = coreTasks s"
  by (simp add: setAffinity_def Let_def coreTasks_def map_update map_update_same)

lemma coreTasks_releaseThread: "coreTasks (releaseThread s thread_id) = coreTasks s"
  by (simp add: releaseThread_def coreTasks_def)

lemma coreTasks_updateTask: "coreTasks (updateTask s i f) = coreTasks s"
  by (simp add: updateTask_def coreTasks_def)

lemma capacityConsistent_setAffinity:
  "capacityConsistent s \<Longrightarrow> capacityConsistent (fst (setAffinity h s thread_id))"
  by (rule capacityConsistent_flags [where s = s])
    (simp_all add: coreTasks_setAffinity openTasks_setAffinity capacityConsistent_def)

lemma capacityConsistent_releaseThread:
  "capacityConsistent s \<Longrightarrow> capacityConsistent (releaseThread s thread_id)"
  by (rule capacityConsistent_flags [where s = s])
    (simp_all add: coreTasks_releaseThread capacityConsistent_def, simp_all add: releaseThread_def)

lemma capacityConsistent_queued:
  assumes "capacityConsistent s" and "0 \<le> taskID" and "taskID < numberOfTasks s"
    and "\<not> active (openTasks s ! nat taskID)"
  shows "capacityConsistent
     (updateTask s taskID (\<lambda>t. t\<lparr>waitingInQueue := True, waitingToSchedule := False\<rparr>))"
proof (rule capacityConsistent_flags [OF assms(1)])
  let ?s1 = "updateTask s taskID (\<lambda>t. t\<lparr>waitingInQueue := True, waitingToSchedule := False\<rparr>)"
  show "coreTasks ?s1 = coreTasks s" by (rule coreTasks_updateTask)
  show "length (openTasks ?s1) = length (openTasks s)" by (simp add: updateTask_def)
  show "\<forall>i < length (openTasks s).
           active (openTasks ?s1 ! i) = active (openTasks s ! i)
           \<and> taskCoreRequirement (openTasks ?s1 ! i) = taskCoreRequirement (openTasks s ! i)
           \<and> (active (openTasks s ! i) \<longrightarrow>
                \<not> waitingInQueue (openTasks ?s1 ! i) \<and> \<not> waitingToSchedule (openTasks ?s1 ! i))"
  proof (intro allI impI)
    fix i assume i: "i < length (openTasks s)"
    from assms(1) i have old: "active (openTasks s ! i) \<longrightarrow>
        \<not> waitingInQueue (openTasks s ! i) \<and> \<not> waitingToSchedule (openTasks s ! i)"
      by (simp add: capacityConsistent_def)
    show "active (openTasks ?s1 ! i) = active (openTasks s ! i)
           \<and> taskCoreRequirement (openTasks ?s1 ! i) = taskCoreRequirement (openTasks s ! i)
           \<and> (active (openTasks s ! i) \<longrightarrow>
                \<not> waitingInQueue (openTasks ?s1 ! i) \<and> \<not> waitingToSchedule (openTasks ?s1 ! i))"
    proof (cases "i = nat taskID")
      case True
      with i assms(4) show ?thesis by (simp add: updateTask_def)
    next
      case False
      with i old show ?thesis by (simp add: updateTask_def)
    qed
  qed
qed

lemma capacityConsistent_fetch:
  assumes "capacityConsistent s"
  shows "capacityConsistent (fetchTasksIntoQueue s time)"
proof (rule capacityConsistent_flags [OF assms])
  let ?s1 = "fetchTasksIntoQueue s time"
  show "coreTasks ?s1 = coreTasks s" by (simp add: fetchTasksIntoQueue_def coreTasks_def)
  show "length (openTasks ?s1) = length (openTasks s)" by (simp add: fetchTasksIntoQueue_def)
  show "\<forall>i < length (openTasks s).
           active (openTasks ?s1 ! i) = active (openTasks s ! i)
           \<and> taskCoreRequirement (openTasks ?s1 ! i) = taskCoreRequirement (openTasks s ! i)
           \<and> (active (openTasks s ! i) \<longrightarrow>
                \<not> waitingInQueue (openTasks ?s1 ! i) \<and> \<not> waitingToSchedule (openTasks ?s1 ! i))"
    using assms by (simp add: fetchTasksIntoQueue_def capacityConsistent_def)
qed

lemma capacityConsistent_readjust:
  assumes "capacityConsistent s"
  shows "capacityConsistent (readjustArrivalTimes s timeJump)"
proof (rule capacityConsistent_flags [OF assms])
  let ?s1 = "readjustArrivalTimes s timeJump"
  show "coreTasks ?s1 = coreTasks s" by (simp add: readjustArrivalTimes_def coreTasks_def)
  show "length (openTasks ?s1) = length (openTasks s)" by (simp add: readjustArrivalTimes_def)
  show "\<forall>i < length (openTasks s).
           active (openTasks ?s1 ! i) = active (openTasks s ! i)
           \<and> taskCoreRequirement (openTasks ?s1 ! i) = taskCoreRequirement (openTasks s ! i)
           \<and> (active (openTasks s ! i) \<longrightarrow>
                \<not> waitingInQueue (openTasks ?s1 ! i) \<and> \<not> waitingToSchedule (openTasks ?s1 ! i))"
    using assms by (simp add: readjustArrivalTimes_def capacityConsistent_def)
qed


lemma count_list_update:
  "i < length xs \<Longrightarrow>
     count_list (xs[i := t]) j + (if xs ! i = j then 1 else 0)
       = count_list xs j + (if t = j then 1 else 0)"
proof (induction xs arbitrary: i)
  case Nil
  then show ?case by simp
next
  case (Cons x xs)
  show ?case
  proof (cases i)
    case 0
    then show ?thesis by simp
  next
    case (Suc k)
    with Cons.prems have "k < length xs" by simp
    from Cons.IH [OF this] Suc show ?thesis by (auto split: if_splits)
  qed
qed

lemma assignCores_tasks:
  assumes "distinct bestCores"
    and "\<forall>c \<in> set bestCores. 0 \<le> c \<and> nat c < length cores \<and> assignedTaskID (cores ! nat c) = - 1"
    and "j \<noteq> - 1"
  shows "count_list (map assignedTaskID (assignCores cores bestCores taskID)) j
       = count_list (map assignedTaskID cores) j + (if j = taskID then length bestCores else 0)
     \<and> set (map assignedTaskID (assignCores cores bestCores taskID))
         \<subseteq> insert taskID (set (map assignedTaskID cores))"
  using assms(1,2)
proof (induction bestCores arbitrary: cores)
  case Nil
  then show ?case by auto
next
  case (Cons c bestCores)
  let ?cores = "cores[nat c := (cores ! nat c)\<lparr>assignedTaskID := taskID\<rparr>]"
  from Cons.prems have c: "0 \<le> c" "nat c < length cores" "assignedTaskID (cores ! nat c) = - 1"
    by simp_all
  have m: "map assignedTaskID ?cores = (map assignedTaskID cores)[nat c := taskID]"
    by (simp add: map_update)
  have rest: "\<forall>d \<in> set bestCores. 0 \<le> d \<and> nat d < length ?cores
      \<and> assignedTaskID (?cores ! nat d) = - 1"
  proof
    fix d assume d: "d \<in> set bestCores"
    with Cons.prems have "d \<noteq> c" "0 \<le> d" "nat d < length cores"
      "assignedTaskID (cores ! nat d) = - 1" by auto
    moreover from this c(1) have "nat d \<noteq> nat c" by simp
    ultimately show "0 \<le> d \<and> nat d < length ?cores \<and> assignedTaskID (?cores ! nat d) = - 1"
      by simp
  qed
  from Cons.prems have "distinct bestCores" by simp
  from Cons.IH [OF this rest]
  have ih: "count_list (map assignedTaskID (assignCores ?cores bestCores taskID)) j
       = count_list (map assignedTaskID ?cores) j + (if j = taskID then length bestCores else 0)"
    "set (map assignedTaskID (assignCores ?cores bestCores taskID))
         \<subseteq> insert taskID (set (map assignedTaskID ?cores))" by simp_all
  have "count_list ((map assignedTaskID cores)[nat c := taskID]) j
        + (if map assignedTaskID cores ! nat c = j then 1 else 0)
      = count_list (map assignedTaskID cores) j + (if taskID = j then 1 else 0)"
    using c(2) by (intro count_list_update) simp
  with c(2,3) assms(3) have cnt: "count_list (map assignedTaskID ?cores) j
      = count_list (map assignedTaskID cores) j + (if taskID = j then 1 else 0)"
    unfolding m by auto
  have "set ((map assignedTaskID cores)[nat c := taskID])
      \<subseteq> insert taskID (set (map assignedTaskID cores))"
    by (rule set_update_subset_insert)
  with ih(2) have sub: "set (map assignedTaskID (assignCores ?cores bestCores taskID))
         \<subseteq> insert taskID (set (map assignedTaskID cores))"
    unfolding m by blast
  from ih(1) cnt sub show ?case by auto
qed

lemma capacityConsistent_admit:
  assumes "capacityConsistent s" and "policy_ok pol"
    and "0 \<le> taskID" and "taskID < numberOfTasks s"
    and "\<not> active (openTasks s ! nat taskID)"
    and "executeMappingPolicy pol s taskID = Inr (s2, True)"
    and "coreTasks s3 = coreTasks s2" and "openTasks s3 = openTasks s2"
  shows "capacityConsistent
     (updateTask s3 taskID (\<lambda>t. t\<lparr>taskStartTime := time, active := True,
                          waitingInQueue := False, waitingToSchedule := False\<rparr>))"
proof -
  let ?t = "openTasks s ! nat taskID"
  let ?need = "taskCoreRequirement ?t"
  let ?best = "pol (taskName ?t) ?need (availableCores s) (activeCores s)"
  let ?s' = "updateTask s3 taskID (\<lambda>t. t\<lparr>taskStartTime := time, active := True,
                          waitingInQueue := False, waitingToSchedule := False\<rparr>)"
  have n: "nat taskID < length (openTasks s)" using assms(3,4) by (simp add: numberOfTasks_def)
  from assms(1) n have need0: "0 \<le> ?need" by (simp add: capacityConsistent_def)
  from assms(6) have len: "?need \<le> int (length ?best)"
    and cores2: "systemCores s2 = assignCores (systemCores s) ?best taskID"
    and tasks2: "openTasks s2 = openTasks s"
    by (auto simp: executeMappingPolicy_def Let_def split: if_splits)
  from assms(2) need0 len have best: "int (length ?best) = ?need" "distinct ?best"
    "\<forall>c \<in> set ?best. 0 \<le> c \<and> nat c < length (availableCores s) \<and> availableCores s ! nat c"
    unfolding policy_ok_def by blast+
  have av: "\<forall>c \<in> set ?best. 0 \<le> c \<and> nat c < length (systemCores s)
      \<and> assignedTaskID (systemCores s ! nat c) = - 1"
  proof
    fix c assume "c \<in> set ?best"
    with best(3) have c: "0 \<le> c" "nat c < length (availableCores s)" "availableCores s ! nat c"
      by blast+
    from c(2) have "nat c < length (systemCores s)" by (simp add: availableCores_def)
    with c show "0 \<le> c \<and> nat c < length (systemCores s)
      \<and> assignedTaskID (systemCores s ! nat c) = - 1" by (simp add: availableCores_nth)
  qed
  have ct: "coreTasks ?s' = map assignedTaskID (assignCores (systemCores s) ?best taskID)"
    using assms(7) cores2 by (simp add: coreTasks_updateTask) (simp add: coreTasks_def)
  have ot: "openTasks ?s' = (openTasks s)[nat taskID := ?t\<lparr>taskStartTime := time, active := True,
                          waitingInQueue := False, waitingToSchedule := False\<rparr>]"
    using assms(8) tasks2 by (simp add: updateTask_def)
  have cnt: "\<And>j. j \<noteq> - 1 \<Longrightarrow> count_list (coreTasks ?s') j
      = count_list (coreTasks s) j + (if j = taskID then length ?best else 0)"
    using assignCores_tasks [OF best(2) av, of _ taskID] by (simp add: ct coreTasks_def [of s])
  have sub: "set (coreTasks ?s') \<subseteq> insert taskID (set (coreTasks s))"
    using assignCores_tasks [OF best(2) av, of 0 taskID] by (simp add: ct coreTasks_def [of s])
  have a: "\<forall>x \<in> set (coreTasks ?s'). x = - 1 \<or> (0 \<le> x \<and> x < numberOfTasks ?s')"
  proof
    fix x assume "x \<in> set (coreTasks ?s')"
    with sub have "x = taskID \<or> x \<in> set (coreTasks s)" by blast
    moreover have "numberOfTasks ?s' = numberOfTasks s" by (simp add: numberOfTasks_def ot)
    ultimately show "x = - 1 \<or> (0 \<le> x \<and> x < numberOfTasks ?s')"
      using assms(1,3,4) by (auto simp: capacityConsistent_def)
  qed
  have b: "\<forall>i < length (openTasks ?s').
            int (count_list (coreTasks ?s') (int i))
              = (if active (openTasks ?s' ! i) then taskCoreRequirement (openTasks ?s' ! i) else 0)
            \<and> 0 \<le> taskCoreRequirement (openTasks ?s' ! i)
            \<and> (active (openTasks ?s' ! i) \<longrightarrow>
                 \<not> waitingInQueue (openTasks ?s' ! i) \<and> \<not> waitingToSchedule (openTasks ?s' ! i))"
  proof (intro allI impI)
    fix i assume "i < length (openTasks ?s')"
    then have i: "i < length (openTasks s)" by (simp add: ot)
    from assms(1) i have old: "int (count_list (coreTasks s) (int i))
              = (if active (openTasks s ! i) then taskCoreRequirement (openTasks s ! i) else 0)"
      "0 \<le> taskCoreRequirement (openTasks s ! i)"
      "active (openTasks s ! i) \<longrightarrow>
                 \<not> waitingInQueue (openTasks s ! i) \<and> \<not> waitingToSchedule (openTasks s ! i)"
      by (simp_all add: capacityConsistent_def)
    have c: "count_list (coreTasks ?s') (int i)
      = count_list (coreTasks s) (int i) + (if int i = taskID then length ?best else 0)"
      by (rule cnt) simp
    show "int (count_list (coreTasks ?s') (int i))
              = (if active (openTasks ?s' ! i) then taskCoreRequirement (openTasks ?s' ! i) else 0)
            \<and> 0 \<le> taskCoreRequirement (openTasks ?s' ! i)
            \<and> (active (openTasks ?s' ! i) \<longrightarrow>
                 \<not> waitingInQueue (openTasks ?s' ! i) \<and> \<not> waitingToSchedule (openTasks ?s' ! i))"
    proof (cases "i = nat taskID")
      case True
      with assms(3) have "int i = taskID" by simp
      with c old(1) assms(5) True best(1) have "int (count_list (coreTasks ?s') (int i)) = ?need"
        by simp
      with True i need0 show ?thesis by (simp add: ot)
    next
      case False
      with assms(3) have "int i \<noteq> taskID" by auto
      with c old False i show ?thesis by (simp add: ot)
    qed
  qed
  from a b show ?thesis unfolding capacityConsistent_def by blast
qed


lemma capacityConsistent_schedule:
  assumes "capacityConsistent s" and "policy_ok pol"
    and "notYetActive s (Schedule taskID isInitialCall time)"
    and "schedule pol h s taskID isInitialCall time = Inr (s', ok)"
  shows "capacityConsistent s'"
proof -
  let ?s1 = "updateTask s taskID (\<lambda>t. t\<lparr>waitingInQueue := True, waitingToSchedule := False\<rparr>)"
  from assms(4) have r: "0 \<le> taskID" "taskID < numberOfTasks s"
    by (auto simp: schedule_def split: if_splits)
  with assms(3) have na: "\<not> active (openTasks s ! nat taskID)" by simp
  have c1: "capacityConsistent ?s1" using assms(1) r na by (rule capacityConsistent_queued)
  have r1: "taskID < numberOfTasks ?s1" using r by (simp add: numberOfTasks_def updateTask_def)
  have na1: "\<not> active (openTasks ?s1 ! nat taskID)"
    using r na by (simp add: numberOfTasks_def updateTask_def)
  from assms(4) consider "s' = s" | "s' = ?s1"
    | s2 where "executeMappingPolicy pol ?s1 taskID = Inr (s2, True)"
        "s' = updateTask (if \<not> isInitialCall then fst (setAffinity h s2 taskID) else s2) taskID
                  (\<lambda>t. t\<lparr>taskStartTime := time, active := True,
                          waitingInQueue := False, waitingToSchedule := False\<rparr>)"
    by (auto simp: schedule_def Let_def split: if_splits sum.splits prod.splits
        dest: executeMappingPolicy_False)
  then show ?thesis
  proof cases
    case 1
    with assms(1) show ?thesis by simp
  next
    case 2
    with c1 show ?thesis by simp
  next
    case 3
    let ?s3 = "if \<not> isInitialCall then fst (setAffinity h s2 taskID) else s2"
    have "coreTasks ?s3 = coreTasks s2" by (simp add: coreTasks_setAffinity)
    moreover have "openTasks ?s3 = openTasks s2" by (simp add: openTasks_setAffinity)
    ultimately show ?thesis
      unfolding 3(2) using capacityConsistent_admit [OF c1 assms(2) r(1) r1 na1 3(1)] by blast
  qed
qed

lemma capacityConsistent_scheduleFront:
  assumes "capacityConsistent s" and "policy_ok pol"
    and "scheduleFront pol h s time = Inr (s', ok)"
  shows "capacityConsistent s'"
proof -
  let ?f = "firstIndexFrom waitingInQueue (openTasks s) 0"
  from assms(3) have sch: "schedule pol h s ?f False time = Inr (s', ok)"
    by (auto simp: scheduleFront_def taskFrontOfQueue_def split: if_splits)
  have "notYetActive s (Schedule ?f False time)"
    unfolding notYetActive.simps
  proof
    assume r: "0 \<le> ?f \<and> ?f < numberOfTasks s"
    then have "?f \<noteq> - 1" by auto
    from firstIndexFrom_hit [OF this] have "waitingInQueue (openTasks s ! nat ?f)" by simp
    moreover from r have "nat ?f < length (openTasks s)"
      unfolding numberOfTasks_def by linarith
    ultimately show "\<not> active (openTasks s ! nat ?f)"
      using assms(1) unfolding capacityConsistent_def by blast
  qed
  from capacityConsistent_schedule [OF assms(1,2) this sch] show ?thesis .
qed

lemma capacityConsistent_emptySystemPrefetch:
  assumes "capacityConsistent s" and "policy_ok pol"
    and "emptySystemPrefetch pol h s time = Inr s'"
  shows "capacityConsistent s'"
proof -
  let ?s2 = "fetchTasksIntoQueue
      (readjustArrivalTimes s (nextArrivalLoop (openTasks s) 0 - time)) time"
  have c2: "capacityConsistent ?s2"
    using assms(1) by (intro capacityConsistent_fetch capacityConsistent_readjust)
  from assms(3) consider "s' = s"
    | ok where "scheduleFront pol h s time = Inr (s', ok)"
    | ok where "scheduleFront pol h ?s2 time = Inr (s', ok)"
    by (auto simp: emptySystemPrefetch_def Let_def split: if_splits sum.splits)
  then show ?thesis
  proof cases
    case 1
    with assms(1) show ?thesis by simp
  next
    case 2
    from capacityConsistent_scheduleFront [OF assms(1,2) this] show ?thesis .
  next
    case 3
    from capacityConsistent_scheduleFront [OF c2 assms(2) this] show ?thesis .
  qed
qed

lemma count_list_release:
  "j \<noteq> - 1 \<Longrightarrow>
     count_list (map (\<lambda>x. if x = app then - 1 else x) xs) j
       = (if j = app then 0 else count_list xs j)"
  by (induction xs) auto

lemma capacityConsistent_complete:
  assumes "capacityConsistent s" and "0 \<le> app" and "app < numberOfTasks s"
  shows "capacityConsistent (updateTask (releaseTask s app) app
      (\<lambda>t. t\<lparr>taskDepartureTime := time, completed := True, active := False\<rparr>))"
proof -
  let ?s' = "updateTask (releaseTask s app) app
      (\<lambda>t. t\<lparr>taskDepartureTime := time, completed := True, active := False\<rparr>)"
  have ct: "coreTasks ?s' = map (\<lambda>x. if x = app then - 1 else x) (coreTasks s)"
    by (simp add: coreTasks_updateTask) (simp add: coreTasks_def releaseTask_def comp_def)
  have ot: "openTasks ?s' = (openTasks s)[nat app := (openTasks s ! nat app)
      \<lparr>taskDepartureTime := time, completed := True, active := False\<rparr>]"
    by (simp add: updateTask_def releaseTask_def)
  have a: "\<forall>x \<in> set (coreTasks ?s'). x = - 1 \<or> (0 \<le> x \<and> x < numberOfTasks ?s')"
    using assms(1) unfolding ct by (auto simp: capacityConsistent_def numberOfTasks_def ot)
  have b: "\<forall>i < length (openTasks ?s').
            int (count_list (coreTasks ?s') (int i))
              = (if active (openTasks ?s' ! i) then taskCoreRequirement (openTasks ?s' ! i) else 0)
            \<and> 0 \<le> taskCoreRequirement (openTasks ?s' ! i)
            \<and> (active (openTasks ?s' ! i) \<longrightarrow>
                 \<not> waitingInQueue (openTasks ?s' ! i) \<and> \<not> waitingToSchedule (openTasks ?s' ! i))"
  proof (intro allI impI)
    fix i assume "i < length (openTasks ?s')"
    then have i: "i < length (openTasks s)" by (simp add: ot)
    from assms(1) i have old: "int (count_list (coreTasks s) (int i))
              = (if active (openTasks s ! i) then taskCoreRequirement (openTasks s ! i) else 0)"
      "0 \<le> taskCoreRequirement (openTasks s ! i)"
      "active (openTasks s ! i) \<longrightarrow>
                 \<not> waitingInQueue (openTasks s ! i) \<and> \<not> waitingToSchedule (openTasks s ! i)"
      by (simp_all add: capacityConsistent_def)
    have c: "count_list (coreTasks ?s') (int i)
        = (if int i = app then 0 else count_list (coreTasks s) (int i))"
      unfolding ct by (rule count_list_release) simp
    show "int (count_list (coreTasks ?s') (int i))
              = (if active (openTasks ?s' ! i) then taskCoreRequirement (openTasks ?s' ! i) else 0)
            \<and> 0 \<le> taskCoreRequirement (openTasks ?s' ! i)
            \<and> (active (openTasks ?s' ! i) \<longrightarrow>
                 \<not> waitingInQueue (openTasks ?s' ! i) \<and> \<not> waitingToSchedule (openTasks ?s' ! i))"
    proof (cases "i = nat app")
      case True
      with assms(2) have "int i = app" by simp
      with c True i old(2) show ?thesis by (simp add: ot)
    next
      case False
      with assms(2) have "int i \<noteq> app" by auto
      with c old False i show ?thesis by (simp add: ot)
    qed
  qed
  from a b show ?thesis unfolding capacityConsistent_def by blast
qed

lemma capacityConsistent_threadExit:
  assumes "capacityConsistent s" and "policy_ok pol"
    and "threadExit pol h s thread_id time = Inr s'"
  shows "capacityConsistent s'"
proof -
  let ?s1 = "releaseThread s thread_id"
  let ?app = "getAppId h thread_id"
  let ?s2 = "updateTask (releaseTask ?s1 ?app) ?app
      (\<lambda>t. t\<lparr>taskDepartureTime := time, completed := True, active := False\<rparr>)"
  have c1: "capacityConsistent ?s1" using assms(1) by (rule capacityConsistent_releaseThread)
  have n1: "numberOfTasks ?s1 = numberOfTasks s" by (simp add: numberOfTasks_def releaseThread_def)
  from assms(3) consider "0 \<le> ?app" "?app < numberOfTasks s"
      "emptySystemPrefetch pol h ?s2 time = Inr s'"
    | "emptySystemPrefetch pol h ?s1 time = Inr s'"
    unfolding threadExit_def Let_def n1
    by (auto split: if_splits sum.splits)
  then show ?thesis
  proof cases
    case 1
    from 1(2) have "?app < numberOfTasks ?s1" by (simp add: n1)
    from capacityConsistent_complete [OF c1 1(1) this]
    have "capacityConsistent ?s2" .
    from capacityConsistent_emptySystemPrefetch [OF this assms(2) 1(3)] show ?thesis .
  next
    case 2
    from capacityConsistent_emptySystemPrefetch [OF c1 assms(2) 2] show ?thesis .
  qed
qed

lemma capacityConsistent_drainQueue:
  "policy_ok pol \<Longrightarrow> capacityConsistent s \<Longrightarrow> drainQueue pol h s time = Inr s' \<Longrightarrow>
     capacityConsistent s'"
proof (induction pol h s time rule: drainQueue.induct)
  case (1 pol h s time)
  show ?case
  proof (cases "numberOfTasksInQueue s \<noteq> 0")
    case False
    with "1.prems" show ?thesis by (simp add: drainQueue.simps [of pol h s time])
  next
    case True
    with "1.prems"(3) obtain s1 ok where sf: "scheduleFront pol h s time = Inr (s1, ok)"
      and rest: "(if ok then drainQueue pol h s1 time else Inr s1) = Inr s'"
      by (simp add: drainQueue.simps [of pol h s time] split: sum.splits prod.splits)
    from capacityConsistent_scheduleFront [OF "1.prems"(2,1) sf]
    have c1: "capacityConsistent s1" .
    show ?thesis
    proof (cases ok)
      case False
      with rest c1 show ?thesis by simp
    next
      case ok: True
      with rest have "drainQueue pol h s1 time = Inr s'" by simp
      from "1.IH" [OF True sf refl ok "1.prems"(1) c1 this] show ?thesis .
    qed
  qed
qed

lemma capacityConsistent_periodic:
  assumes "capacityConsistent s" and "policy_ok pol" and "periodic pol h s time = Inr s'"
  shows "capacityConsistent s'"
proof -
  from periodic_cases [OF assms(3)]
  consider "s' = s" | "drainQueue pol h (fetchTasksIntoQueue s time) time = Inr s'"
    by blast
  then show ?thesis
  proof cases
    case 1
    with assms(1) show ?thesis by simp
  next
    case 2
    from capacityConsistent_drainQueue [OF assms(2) capacityConsistent_fetch [OF assms(1)] 2]
    show ?thesis .
  qed
qed

lemma capacityConsistent_threadCreate:
  assumes "capacityConsistent s" and "policy_ok pol"
    and "notYetActive s (ThreadCreate thread_id time)"
    and "threadCreate pol h s thread_id time = Inr (s', core)"
  shows "capacityConsistent s'"
proof -
  from assms(4) obtain s1 where
    s1: "s1 = s \<or> (\<exists>ok. schedule pol h s thread_id True time = Inr (s1, ok))"
    and s': "s' = fst (setAffinity h s1 thread_id)"
    by (auto simp: threadCreate_def Let_def split: if_splits sum.splits prod.splits)
  from s1 have "capacityConsistent s1"
  proof
    assume "s1 = s"
    with assms(1) show ?thesis by simp
  next
    assume "\<exists>ok. schedule pol h s thread_id True time = Inr (s1, ok)"
    then obtain ok where sch: "schedule pol h s thread_id True time = Inr (s1, ok)" by blast
    from assms(3) have "notYetActive s (Schedule thread_id True time)" by simp
    from capacityConsistent_schedule [OF assms(1,2) this sch] show ?thesis .
  qed
  then show ?thesis unfolding s' by (rule capacityConsistent_setAffinity)
qed


lemma capacityConsistent_initial:
  assumes "\<forall>c \<in> set (systemCores s). assignedTaskID c = - 1"
    and "\<forall>t \<in> set (openTasks s). \<not> active t \<and> 0 \<le> taskCoreRequirement t"
  shows "capacityConsistent s"
proof -
  have "\<forall>x \<in> set (coreTasks s). x = - 1" using assms(1) by (simp add: coreTasks_def)
  moreover from this have "\<And>i. count_list (coreTasks s) (int i) = 0"
    by (intro count_notin) auto
  ultimately show ?thesis using assms(2) by (auto simp: capacityConsistent_def)
qed

text \<open>
  C1, as the code has it. Let the mapping policy keep its contract (when it returns at
  least the required number of cores, it returns exactly that many, all different and all
  available), and let \<open>schedule\<close> and \<open>thread_create\<close> be called only for a task that is
  not active yet. Then every public hook that returns keeps the invariant
  \<open>capacityConsistent\<close>, which holds in the constructor's state and gives the capacity
  invariant: the number of cores with a task assigned is the sum of the core requirements
  of the active tasks, and free cores plus that sum is the number of cores.
\<close>

theorem capacity_invariant:
  assumes "policy_ok pol" and "capacityConsistent s" and "notYetActive s call"
    and "hook pol h s call = Inr s'"
  shows "capacityConsistent s' \<and> capacity s'"
proof -
  have "capacityConsistent s'"
  proof (cases call)
    case (Schedule taskID isInitialCall time)
    with assms(4) obtain ok where "schedule pol h s taskID isInitialCall time = Inr (s', ok)"
      by (auto split: sum.splits)
    with assms(1-3) Schedule show ?thesis by (simp add: capacityConsistent_schedule)
  next
    case (SetAffinity thread_id)
    with assms(4) have "s' = fst (setAffinity h s thread_id)" by simp
    with assms(2) show ?thesis by (simp add: capacityConsistent_setAffinity)
  next
    case (ThreadCreate thread_id time)
    with assms(4) obtain core where "threadCreate pol h s thread_id time = Inr (s', core)"
      by (auto split: sum.splits)
    with assms(1-3) ThreadCreate show ?thesis by (simp add: capacityConsistent_threadCreate)
  next
    case (ThreadExit thread_id time)
    with assms(4) have "threadExit pol h s thread_id time = Inr s'" by simp
    from capacityConsistent_threadExit [OF assms(2,1) this] show ?thesis .
  next
    case (Periodic time)
    with assms(4) have "periodic pol h s time = Inr s'" by simp
    from capacityConsistent_periodic [OF assms(2,1) this] show ?thesis .
  qed
  then show ?thesis by (simp add: capacityConsistent_capacity)
qed

theorem capacity_invariant_witness:
  "hook (mapFirstUnused [0, 1]) exampleHost lateExit (ThreadExit 0 5000) = Inr lateExitResult
   \<and> capacityConsistent lateExit \<and> capacity lateExitResult"
proof -
  have "distinct [0 :: int, 1]" by simp
  then have h1: "policy_ok (mapFirstUnused [0, 1])" by (rule policy_ok_mapFirstUnused)
  have h2: "capacityConsistent lateExit" by code_simp
  have h3: "notYetActive lateExit (ThreadExit 0 5000)" by simp
  have h4: "hook (mapFirstUnused [0, 1]) exampleHost lateExit (ThreadExit 0 5000)
      = Inr lateExitResult" by code_simp
  from capacity_invariant [OF h1 h2 h3 h4] h2 h4 show ?thesis by simp
qed

text \<open>
  C1, as the specification states it, fails: the contract of the policy alone is not
  enough. After the only task (two cores) was admitted on four cores, the capacity
  invariant holds; a second call of \<open>schedule\<close> for the task, now active, queues it again,
  maps two more cores to it and returns true: four cores are assigned and the active tasks
  require two.
\<close>

theorem capacity_double_admission_counterexample:
  "policy_ok (mapFirstUnused [0, 1, 2, 3])
   \<and> runHooks (mapFirstUnused [0, 1, 2, 3]) exampleHost
        (exampleState [(2, 0)] [True, True, True, True] 1000000) [ThreadCreate 0 0]
       = Inr admittedOnce
   \<and> capacity admittedOnce
   \<and> hook (mapFirstUnused [0, 1, 2, 3]) exampleHost admittedOnce (Schedule 0 True 10)
       = Inr admittedTwice
   \<and> \<not> capacity admittedTwice"
proof -
  have "distinct [0 :: int, 1, 2, 3]" by simp
  then have a: "policy_ok (mapFirstUnused [0, 1, 2, 3])" by (rule policy_ok_mapFirstUnused)
  have b: "runHooks (mapFirstUnused [0, 1, 2, 3]) exampleHost
        (exampleState [(2, 0)] [True, True, True, True] 1000000) [ThreadCreate 0 0]
       = Inr admittedOnce" by code_simp
  have c: "capacity admittedOnce" by code_simp
  have d: "hook (mapFirstUnused [0, 1, 2, 3]) exampleHost admittedOnce (Schedule 0 True 10)
       = Inr admittedTwice" by code_simp
  have e: "\<not> capacity admittedTwice" by code_simp
  from a b c d e show ?thesis by (intro conjI)
qed

subsection \<open>The time jump when no waiting task has arrived\<close>

text \<open>
  What the time jump does keep. When every task that waits to be scheduled has an arrival
  time that is positive and not before the current time, \<open>nextArrivalLoop\<close> finds the
  least of these arrival times, no adjusted arrival time exceeds its previous value, the
  order of the arrival times is the same after the jump, and a task with the least
  arrival time arrives at the current time.
\<close>

lemma nextArrivalLoop_min:
  assumes "\<forall>t \<in> set ts. waitingToSchedule t \<longrightarrow> 0 < taskArrivalTime t"
  shows "(acc \<noteq> 0 \<longrightarrow> nextArrivalLoop ts acc \<le> acc)
     \<and> (acc \<noteq> 0 \<or> (\<exists>t \<in> set ts. waitingToSchedule t) \<longrightarrow> nextArrivalLoop ts acc \<noteq> 0)
     \<and> (\<forall>t \<in> set ts. waitingToSchedule t \<longrightarrow> nextArrivalLoop ts acc \<le> taskArrivalTime t)
     \<and> (nextArrivalLoop ts acc = acc
          \<or> (\<exists>t \<in> set ts. waitingToSchedule t \<and> nextArrivalLoop ts acc = taskArrivalTime t))"
  using assms
proof (induction ts arbitrary: acc)
  case Nil
  then show ?case by simp
next
  case (Cons t ts)
  let ?acc = "if waitingToSchedule t then
          (if acc = 0 then taskArrivalTime t
           else if taskArrivalTime t < acc then taskArrivalTime t
           else acc)
        else acc"
  from Cons.prems have p: "\<forall>t \<in> set ts. waitingToSchedule t \<longrightarrow> 0 < taskArrivalTime t"
    and pt: "waitingToSchedule t \<longrightarrow> 0 < taskArrivalTime t" by simp_all
  note ih = Cons.IH [OF p, of ?acc]
  have e: "nextArrivalLoop (t # ts) acc = nextArrivalLoop ts ?acc" by simp
  have a0: "acc \<noteq> 0 \<longrightarrow> ?acc \<noteq> 0 \<and> ?acc \<le> acc" using pt by auto
  have w: "waitingToSchedule t \<longrightarrow> ?acc \<noteq> 0 \<and> ?acc \<le> taskArrivalTime t"
    using pt by (auto simp: word_greater_zero_iff)
  have c: "?acc = acc \<or> (waitingToSchedule t \<and> ?acc = taskArrivalTime t)" by auto
  define r where "r = nextArrivalLoop ts ?acc"
  from ih have ih1: "?acc \<noteq> 0 \<longrightarrow> r \<le> ?acc"
    and ih4: "?acc \<noteq> 0 \<or> (\<exists>t \<in> set ts. waitingToSchedule t) \<longrightarrow> r \<noteq> 0"
    and ih2: "\<forall>t \<in> set ts. waitingToSchedule t \<longrightarrow> r \<le> taskArrivalTime t"
    and ih3: "r = ?acc \<or> (\<exists>t \<in> set ts. waitingToSchedule t \<and> r = taskArrivalTime t)"
    unfolding r_def by blast+
  have g1: "acc \<noteq> 0 \<longrightarrow> r \<le> acc"
    using a0 ih1 order_trans by blast
  have g4: "acc \<noteq> 0 \<or> (\<exists>u \<in> set (t # ts). waitingToSchedule u) \<longrightarrow> r \<noteq> 0"
    using a0 w ih4 by auto
  have "waitingToSchedule t \<longrightarrow> r \<le> taskArrivalTime t"
    using w ih1 order_trans by blast
  with ih2 have g2: "\<forall>u \<in> set (t # ts). waitingToSchedule u \<longrightarrow> r \<le> taskArrivalTime u"
    by simp
  have g3: "r = acc \<or> (\<exists>u \<in> set (t # ts). waitingToSchedule u \<and> r = taskArrivalTime u)"
    using ih3 c by (metis list.set_intros(1) list.set_intros(2))
  from g1 g2 g3 g4 show ?case unfolding e r_def [symmetric] by blast
qed

lemma time_jump_down_in_order:
  assumes "\<forall>t \<in> set ts. waitingToSchedule t \<longrightarrow> 0 < taskArrivalTime t \<and> time \<le> taskArrivalTime t"
    and "t \<in> set ts" and "waitingToSchedule t" and "u \<in> set ts" and "waitingToSchedule u"
  shows "taskArrivalTime t - (nextArrivalLoop ts 0 - time) \<le> taskArrivalTime t
     \<and> (taskArrivalTime t - (nextArrivalLoop ts 0 - time)
          \<le> taskArrivalTime u - (nextArrivalLoop ts 0 - time)
        \<longleftrightarrow> taskArrivalTime t \<le> taskArrivalTime u)
     \<and> (\<exists>v \<in> set ts. waitingToSchedule v \<and> nextArrivalLoop ts 0 = taskArrivalTime v
          \<and> taskArrivalTime v - (nextArrivalLoop ts 0 - time) = time)"
proof -
  let ?n = "nextArrivalLoop ts 0"
  let ?j = "?n - time"
  from assms(1) have pos: "\<forall>t \<in> set ts. waitingToSchedule t \<longrightarrow> 0 < taskArrivalTime t"
    by blast
  from assms(2,3) have some: "\<exists>t \<in> set ts. waitingToSchedule t" by blast
  from nextArrivalLoop_min [OF pos, of 0] some
  have n0: "?n \<noteq> 0"
    and le: "\<forall>t \<in> set ts. waitingToSchedule t \<longrightarrow> ?n \<le> taskArrivalTime t"
    and ex: "?n = 0 \<or> (\<exists>t \<in> set ts. waitingToSchedule t \<and> ?n = taskArrivalTime t)"
    by blast+
  from ex n0 obtain v where v: "v \<in> set ts" "waitingToSchedule v" "?n = taskArrivalTime v"
    by blast
  with assms(1) have tn: "time \<le> ?n" by auto
  then have jn: "?j \<le> ?n" by (simp add: word_sub_le)
  from le assms(2-5) have nt: "?n \<le> taskArrivalTime t" and nu: "?n \<le> taskArrivalTime u"
    by blast+
  from jn nt have jt: "?j \<le> taskArrivalTime t" by (rule order_trans)
  from jn nu have ju: "?j \<le> taskArrivalTime u" by (rule order_trans)
  have a: "taskArrivalTime t - ?j \<le> taskArrivalTime t" using jt by (simp add: word_sub_le)
  have b: "taskArrivalTime t - ?j \<le> taskArrivalTime u - ?j
        \<longleftrightarrow> taskArrivalTime t \<le> taskArrivalTime u"
    using jt ju word_le_minus_mono_left [of "taskArrivalTime t" "taskArrivalTime u" ?j]
      word_le_minus_cancel [of "taskArrivalTime t" ?j "taskArrivalTime u"] by blast
  have "taskArrivalTime v - ?j = time" using v(3) by simp
  with v have c: "\<exists>v \<in> set ts. waitingToSchedule v \<and> ?n = taskArrivalTime v
          \<and> taskArrivalTime v - ?j = time" by blast
  from a b c show ?thesis by blast
qed

subsection \<open>The admission order over runs\<close>

lemma fifoOrdered_later: "fifoOrdered T ts \<Longrightarrow> T \<le> T' \<Longrightarrow> fifoOrdered T' ts"
  unfolding fifoOrdered_def by (meson order_trans)

lemma fifoOrdered_update:
  assumes "fifoOrdered T ts" and "k < length ts"
    and "inPhase x" and "entered x \<longrightarrow> taskStartTime x \<le> T"
    and "\<forall>i < k. pairOrdered (ts ! i) x"
    and "\<forall>j < length ts. k < j \<longrightarrow> pairOrdered x (ts ! j)"
  shows "fifoOrdered T (ts[k := x])"
proof -
  have a: "\<forall>t \<in> set (ts[k := x]). inPhase t \<and> (entered t \<longrightarrow> taskStartTime t \<le> T)"
  proof
    fix t assume "t \<in> set (ts[k := x])"
    then have "t = x \<or> t \<in> set ts"
      using set_update_subset_insert [of ts k x] by auto
    with assms(1,3,4) show "inPhase t \<and> (entered t \<longrightarrow> taskStartTime t \<le> T)"
      unfolding fifoOrdered_def by blast
  qed
  have b: "\<forall>j < length (ts[k := x]). \<forall>i < j. pairOrdered (ts[k := x] ! i) (ts[k := x] ! j)"
  proof (intro allI impI)
    fix j i assume j: "j < length (ts[k := x])" and i: "i < j"
    then have jl: "j < length ts" and il: "i < length ts" by simp_all
    from assms(1) jl i have old: "pairOrdered (ts ! i) (ts ! j)"
      unfolding fifoOrdered_def by blast
    consider "j = k" | "i = k" | "j \<noteq> k" "i \<noteq> k" by blast
    then show "pairOrdered (ts[k := x] ! i) (ts[k := x] ! j)"
    proof cases
      case 1
      with i assms(5) have "pairOrdered (ts ! i) x" by blast
      with 1 i jl show ?thesis by simp
    next
      case 2
      with i jl assms(6) have "pairOrdered x (ts ! j)" by blast
      with 2 i il show ?thesis by simp
    next
      case 3
      with old show ?thesis by simp
    qed
  qed
  from a b show ?thesis unfolding fifoOrdered_def by blast
qed

lemma fifoOrdered_map:
  assumes "fifoOrdered T ts"
    and "\<forall>t \<in> set ts. inPhase (f t) \<and> (entered (f t) \<longrightarrow> taskStartTime (f t) \<le> T)"
    and "\<forall>j < length ts. \<forall>i < j. pairOrdered (f (ts ! i)) (f (ts ! j))"
  shows "fifoOrdered T (map f ts)"
  using assms(2,3) unfolding fifoOrdered_def by simp

lemma fifoOrdered_pair:
  "fifoOrdered T ts \<Longrightarrow> i < j \<Longrightarrow> j < length ts \<Longrightarrow> pairOrdered (ts ! i) (ts ! j)"
  unfolding fifoOrdered_def by blast

lemma fifoOrdered_phase:
  "fifoOrdered T ts \<Longrightarrow> i < length ts \<Longrightarrow>
     inPhase (ts ! i) \<and> (entered (ts ! i) \<longrightarrow> taskStartTime (ts ! i) \<le> T)"
  unfolding fifoOrdered_def by simp


lemma inPhase_queued: "inPhase t \<Longrightarrow> waitingInQueue t \<Longrightarrow> \<not> waitingToSchedule t \<and> \<not> entered t"
  unfolding inPhase_def by blast

lemma inPhase_waiting: "inPhase t \<Longrightarrow> waitingToSchedule t \<Longrightarrow> \<not> waitingInQueue t \<and> \<not> entered t"
  unfolding inPhase_def by blast

lemma inPhase_entered:
  "inPhase t \<Longrightarrow> \<not> waitingInQueue t \<Longrightarrow> \<not> waitingToSchedule t \<Longrightarrow> entered t"
  unfolding inPhase_def by blast

lemma fifoOrdered_queued:
  assumes "fifoOrdered T ts" and "k < length ts" and "\<not> entered (ts ! k)"
    and "\<forall>i < k. \<not> waitingToSchedule (ts ! i)"
  shows "fifoOrdered T (ts[k := (ts ! k)\<lparr>waitingInQueue := True, waitingToSchedule := False\<rparr>])"
proof (rule fifoOrdered_update [OF assms(1,2)])
  let ?x = "(ts ! k)\<lparr>waitingInQueue := True, waitingToSchedule := False\<rparr>"
  show "inPhase ?x" using assms(3) by (simp add: inPhase_def entered_def)
  show "entered ?x \<longrightarrow> taskStartTime ?x \<le> T" using assms(3) by (simp add: entered_def)
  show "\<forall>i < k. pairOrdered (ts ! i) ?x"
    using assms(3,4) by (simp add: pairOrdered_def entered_def)
  show "\<forall>j < length ts. k < j \<longrightarrow> pairOrdered ?x (ts ! j)"
  proof (intro allI impI)
    fix j assume "j < length ts" "k < j"
    with assms(1) have "pairOrdered (ts ! k) (ts ! j)" by (simp add: fifoOrdered_pair)
    with assms(3) show "pairOrdered ?x (ts ! j)" by (simp add: pairOrdered_def entered_def)
  qed
qed

lemma fifoOrdered_admitted:
  assumes "fifoOrdered T ts" and "k < length ts" and "waitingInQueue (ts ! k)"
    and "\<forall>i < k. \<not> waitingInQueue (ts ! i)" and "T \<le> time"
  shows "fifoOrdered time
     (ts[k := (ts ! k)\<lparr>taskStartTime := time, active := True,
                      waitingInQueue := False, waitingToSchedule := False\<rparr>])"
proof (rule fifoOrdered_update [OF fifoOrdered_later [OF assms(1,5)] assms(2)])
  let ?x = "(ts ! k)\<lparr>taskStartTime := time, active := True,
                      waitingInQueue := False, waitingToSchedule := False\<rparr>"
  from assms(1,2) have pk: "inPhase (ts ! k)" by (simp add: fifoOrdered_phase)
  from inPhase_queued [OF pk assms(3)]
  have qk: "\<not> waitingToSchedule (ts ! k)" "\<not> entered (ts ! k)" by simp_all
  show "inPhase ?x" by (simp add: inPhase_def entered_def)
  show "entered ?x \<longrightarrow> taskStartTime ?x \<le> time" by simp
  show "\<forall>i < k. pairOrdered (ts ! i) ?x"
  proof (intro allI impI)
    fix i assume i: "i < k"
    with assms(2) have il: "i < length ts" by simp
    from assms(1) i assms(2) have "pairOrdered (ts ! i) (ts ! k)" by (simp add: fifoOrdered_pair)
    with qk(1) have nw: "\<not> waitingToSchedule (ts ! i)" unfolding pairOrdered_def by blast
    from i assms(4) have nq: "\<not> waitingInQueue (ts ! i)" by blast
    from assms(1) il have "inPhase (ts ! i)" "entered (ts ! i) \<longrightarrow> taskStartTime (ts ! i) \<le> T"
      by (simp_all add: fifoOrdered_phase)
    with nw nq have "entered (ts ! i)" "taskStartTime (ts ! i) \<le> T"
      by (auto dest: inPhase_entered)
    with assms(5) nw show "pairOrdered (ts ! i) ?x" by (auto simp: pairOrdered_def)
  qed
  show "\<forall>j < length ts. k < j \<longrightarrow> pairOrdered ?x (ts ! j)"
  proof (intro allI impI)
    fix j assume "j < length ts" "k < j"
    with assms(1) have "pairOrdered (ts ! k) (ts ! j)" by (simp add: fifoOrdered_pair)
    with qk(2) show "pairOrdered ?x (ts ! j)" by (simp add: pairOrdered_def)
  qed
qed

lemma fifoOrdered_completed:
  assumes "fifoOrdered T ts" and "k < length ts" and "active (ts ! k)"
  shows "fifoOrdered T
     (ts[k := (ts ! k)\<lparr>taskDepartureTime := time, completed := True, active := False\<rparr>])"
proof (rule fifoOrdered_update [OF assms(1,2)])
  let ?x = "(ts ! k)\<lparr>taskDepartureTime := time, completed := True, active := False\<rparr>"
  from assms(1,2) have pk: "inPhase (ts ! k)"
    "entered (ts ! k) \<longrightarrow> taskStartTime (ts ! k) \<le> T" by (simp_all add: fifoOrdered_phase)
  from assms(3) have e: "entered (ts ! k)" by (simp add: entered_def)
  show "inPhase ?x" using pk(1) e by (auto simp: inPhase_def entered_def)
  show "entered ?x \<longrightarrow> taskStartTime ?x \<le> T" using pk(2) e by simp
  show "\<forall>i < k. pairOrdered (ts ! i) ?x"
  proof (intro allI impI)
    fix i assume "i < k"
    with assms(1,2) have "pairOrdered (ts ! i) (ts ! k)" by (simp add: fifoOrdered_pair)
    with e show "pairOrdered (ts ! i) ?x" by (simp add: pairOrdered_def entered_def)
  qed
  show "\<forall>j < length ts. k < j \<longrightarrow> pairOrdered ?x (ts ! j)"
  proof (intro allI impI)
    fix j assume "j < length ts" "k < j"
    with assms(1) have "pairOrdered (ts ! k) (ts ! j)" by (simp add: fifoOrdered_pair)
    with e show "pairOrdered ?x (ts ! j)" by (simp add: pairOrdered_def entered_def)
  qed
qed

lemma fifoOrdered_fetched:
  assumes "fifoOrdered T ts"
  shows "fifoOrdered T
     (map (\<lambda>t. if waitingToSchedule t \<and> taskArrivalTime t \<le> time
               then t\<lparr>waitingInQueue := True, waitingToSchedule := False\<rparr> else t) ts)"
proof (rule fifoOrdered_map [OF assms])
  let ?f = "\<lambda>t. if waitingToSchedule t \<and> taskArrivalTime t \<le> time
               then t\<lparr>waitingInQueue := True, waitingToSchedule := False\<rparr> else t"
  show "\<forall>t \<in> set ts. inPhase (?f t) \<and> (entered (?f t) \<longrightarrow> taskStartTime (?f t) \<le> T)"
  proof
    fix t assume "t \<in> set ts"
    with assms have "inPhase t" "entered t \<longrightarrow> taskStartTime t \<le> T"
      unfolding fifoOrdered_def by blast+
    then show "inPhase (?f t) \<and> (entered (?f t) \<longrightarrow> taskStartTime (?f t) \<le> T)"
      by (auto simp: inPhase_def entered_def)
  qed
  show "\<forall>j < length ts. \<forall>i < j. pairOrdered (?f (ts ! i)) (?f (ts ! j))"
  proof (intro allI impI)
    fix j i assume j: "j < length ts" and i: "i < j"
    with assms have p: "pairOrdered (ts ! i) (ts ! j)" by (simp add: fifoOrdered_pair)
    from assms i j have "inPhase (ts ! i)" by (simp add: fifoOrdered_phase)
    then have w: "waitingToSchedule (ts ! i) \<longrightarrow> \<not> entered (ts ! i)"
      by (auto dest: inPhase_waiting)
    from p w show "pairOrdered (?f (ts ! i)) (?f (ts ! j))"
      unfolding pairOrdered_def by (auto simp: entered_def)
  qed
qed

lemma word_shift_mono:
  fixes a b n time :: UInt64
  assumes "n \<le> a" and "a \<le> b" and "unat b + unat time < 2 ^ 64"
  shows "a - (n - time) \<le> b - (n - time)"
proof -
  from assms(1,2) have nb: "n \<le> b" by (rule order_trans)
  have ua: "unat (a - n) = unat a - unat n" using assms(1) by (simp add: unat_sub)
  have ub: "unat (b - n) = unat b - unat n" using nb by (simp add: unat_sub)
  from assms(2) have le: "unat a \<le> unat b" by (simp add: word_le_nat_alt)
  have "unat (b - n) + unat time < 2 ^ LENGTH(64)" using ub assms(3) by simp
  then have sb: "unat (b - n + time) = unat (b - n) + unat time"
    by (simp only: unat_add_lem)
  have "unat (a - n) + unat time < 2 ^ LENGTH(64)" using ua le assms(3) by simp
  then have sa: "unat (a - n + time) = unat (a - n) + unat time"
    by (simp only: unat_add_lem)
  have "unat (a - n + time) \<le> unat (b - n + time)"
    unfolding sa sb ua ub using le by simp
  then have "a - n + time \<le> b - n + time" by (simp add: word_le_nat_alt)
  then show ?thesis by (simp add: algebra_simps)
qed


lemma fifoOrdered_readjusted:
  assumes "fifoOrdered T ts"
    and "\<forall>t \<in> set ts. waitingToSchedule t \<longrightarrow>
           0 < taskArrivalTime t \<and> unat (taskArrivalTime t) + unat time < 2 ^ 64"
  shows "fifoOrdered T
     (map (\<lambda>t. if waitingToSchedule t
               then t\<lparr>taskArrivalTime := taskArrivalTime t - (nextArrivalLoop ts 0 - time)\<rparr>
               else t) ts)"
proof (rule fifoOrdered_map [OF assms(1)])
  let ?n = "nextArrivalLoop ts 0"
  let ?f = "\<lambda>t. if waitingToSchedule t
               then t\<lparr>taskArrivalTime := taskArrivalTime t - (?n - time)\<rparr> else t"
  from assms(2) have pos: "\<forall>t \<in> set ts. waitingToSchedule t \<longrightarrow> 0 < taskArrivalTime t"
    by blast
  from nextArrivalLoop_min [OF pos, of 0]
  have least: "\<forall>t \<in> set ts. waitingToSchedule t \<longrightarrow> ?n \<le> taskArrivalTime t" by blast
  show "\<forall>t \<in> set ts. inPhase (?f t) \<and> (entered (?f t) \<longrightarrow> taskStartTime (?f t) \<le> T)"
  proof
    fix t assume "t \<in> set ts"
    with assms(1) have "inPhase t" "entered t \<longrightarrow> taskStartTime t \<le> T"
      unfolding fifoOrdered_def by blast+
    then show "inPhase (?f t) \<and> (entered (?f t) \<longrightarrow> taskStartTime (?f t) \<le> T)"
      by (auto simp: inPhase_def entered_def)
  qed
  show "\<forall>j < length ts. \<forall>i < j. pairOrdered (?f (ts ! i)) (?f (ts ! j))"
  proof (intro allI impI)
    fix j i assume j: "j < length ts" and i: "i < j"
    then have mem: "ts ! i \<in> set ts" "ts ! j \<in> set ts" by simp_all
    from assms(1) i j have p: "pairOrdered (ts ! i) (ts ! j)" by (simp add: fifoOrdered_pair)
    show "pairOrdered (?f (ts ! i)) (?f (ts ! j))"
    proof (cases "waitingToSchedule (ts ! i)")
      case False
      with p show ?thesis by (auto simp: pairOrdered_def entered_def)
    next
      case True
      with p have wj: "waitingToSchedule (ts ! j)"
        and le: "taskArrivalTime (ts ! i) \<le> taskArrivalTime (ts ! j)"
        unfolding pairOrdered_def by blast+
      from least mem(1) True have n: "?n \<le> taskArrivalTime (ts ! i)" by blast
      from assms(2) mem(2) wj have "unat (taskArrivalTime (ts ! j)) + unat time < 2 ^ 64"
        by blast
      from word_shift_mono [OF n le this]
      have "taskArrivalTime (ts ! i) - (?n - time) \<le> taskArrivalTime (ts ! j) - (?n - time)" .
      with True wj p show ?thesis by (simp add: pairOrdered_def entered_def)
    qed
  qed
qed

lemma fifoOrdered_schedule:
  assumes "fifoOrdered T (openTasks s)" and "T \<le> time"
    and "scheduleAllowed s taskID time"
    and "schedule pol h s taskID isInitialCall time = Inr (s', ok)"
  shows "fifoOrdered time (openTasks s')"
proof -
  let ?ts = "openTasks s"
  let ?k = "nat taskID"
  let ?s1 = "updateTask s taskID (\<lambda>t. t\<lparr>waitingInQueue := True, waitingToSchedule := False\<rparr>)"
  from assms(4) have r: "0 \<le> taskID" "taskID < numberOfTasks s"
    by (auto simp: schedule_def split: if_splits)
  then have k: "?k < length ?ts" unfolding numberOfTasks_def by linarith
  show ?thesis
  proof (cases "time < taskArrivalTime (?ts ! ?k)")
    case True
    with assms(4) r have "s' = s" by (simp add: schedule_def)
    with assms(1,2) show ?thesis by (simp add: fifoOrdered_later)
  next
    case False
    with assms(3) r have ne: "\<not> entered (?ts ! ?k)"
      and low: "\<forall>t \<in> set (take ?k ?ts). \<not> waitingToSchedule t"
      unfolding scheduleAllowed_def by blast+
    have low': "\<forall>i < ?k. \<not> waitingToSchedule (?ts ! i)"
    proof (intro allI impI)
      fix i assume i: "i < ?k"
      with k have "take ?k ?ts ! i \<in> set (take ?k ?ts)" by (intro nth_mem) simp
      with i low show "\<not> waitingToSchedule (?ts ! i)" by simp
    qed
    have t1: "openTasks ?s1 = ?ts[?k := (?ts ! ?k)\<lparr>waitingInQueue := True, waitingToSchedule := False\<rparr>]"
      by (simp add: updateTask_def)
    have f1: "fifoOrdered T (openTasks ?s1)"
      unfolding t1 using assms(1) k ne low' by (rule fifoOrdered_queued)
    from assms(4) False r consider "s' = ?s1"
      | s2 where "ok" "executeMappingPolicy pol ?s1 taskID = Inr (s2, True)"
          "s' = updateTask (if \<not> isInitialCall then fst (setAffinity h s2 taskID) else s2) taskID
                  (\<lambda>t. t\<lparr>taskStartTime := time, active := True,
                          waitingInQueue := False, waitingToSchedule := False\<rparr>)"
      by (auto simp: schedule_def Let_def split: if_splits sum.splits prod.splits
          dest: executeMappingPolicy_False)
    then show ?thesis
    proof cases
      case 1
      with f1 assms(2) show ?thesis by (simp add: fifoOrdered_later)
    next
      case 2
      let ?s3 = "if \<not> isInitialCall then fst (setAffinity h s2 taskID) else s2"
      have t3: "openTasks ?s3 = openTasks ?s1"
        using openTasks_executeMappingPolicy [OF 2(2)] by (simp add: openTasks_setAffinity)
      have t': "openTasks s' = (openTasks ?s1)[?k := (openTasks ?s1 ! ?k)
          \<lparr>taskStartTime := time, active := True,
           waitingInQueue := False, waitingToSchedule := False\<rparr>]"
        unfolding 2(3) by (simp add: updateTask_def t3)
      have k1: "?k < length (openTasks ?s1)" using k by (simp add: t1)
      have q1: "waitingInQueue (openTasks ?s1 ! ?k)" using k by (simp add: t1)
      have front: "\<forall>i < ?k. \<not> waitingInQueue (openTasks ?s1 ! i)"
      proof (intro allI impI)
        fix i assume i: "i < ?k"
        then have "0 \<le> int i" "int i < taskID" by simp_all
        from schedule_admits_queue_head [OF _ this, of pol h s isInitialCall time s'] assms(4) 2(1)
        have "\<not> waitingInQueue (?ts ! i)" by simp
        with i show "\<not> waitingInQueue (openTasks ?s1 ! i)" by (simp add: t1)
      qed
      show ?thesis unfolding t' using f1 k1 q1 front assms(2) by (rule fifoOrdered_admitted)
    qed
  qed
qed

lemma fifoOrdered_scheduleFront:
  assumes "fifoOrdered T (openTasks s)" and "T \<le> time"
    and "scheduleFront pol h s time = Inr (s', ok)"
  shows "fifoOrdered time (openTasks s')"
proof -
  let ?ts = "openTasks s"
  let ?f = "firstIndexFrom waitingInQueue ?ts 0"
  from assms(3) have sch: "schedule pol h s ?f False time = Inr (s', ok)"
    by (auto simp: scheduleFront_def taskFrontOfQueue_def split: if_splits)
  have "scheduleAllowed s ?f time"
    unfolding scheduleAllowed_def
  proof (intro impI conjI disjI2 ballI)
    assume r: "0 \<le> ?f \<and> ?f < numberOfTasks s"
    then have k: "nat ?f < length ?ts" unfolding numberOfTasks_def by linarith
    from r have "?f \<noteq> - 1" by auto
    from firstIndexFrom_hit [OF this] have q: "waitingInQueue (?ts ! nat ?f)" by simp
    from assms(1) k have ph: "inPhase (?ts ! nat ?f)" by (simp add: fifoOrdered_phase)
    from inPhase_queued [OF ph q]
    show "\<not> entered (?ts ! nat ?f)" by simp
    fix t assume "t \<in> set (take (nat ?f) ?ts)"
    then obtain i where i: "i < nat ?f" "t = ?ts ! i"
      using k by (auto simp: in_set_conv_nth)
    with assms(1) k have "pairOrdered t (?ts ! nat ?f)" by (simp add: fifoOrdered_pair)
    with inPhase_queued [OF ph q] show "\<not> waitingToSchedule t"
      unfolding pairOrdered_def by blast
  qed
  from fifoOrdered_schedule [OF assms(1,2) this sch] show ?thesis .
qed


lemma fifoOrdered_emptySystemPrefetch:
  assumes "fifoOrdered T (openTasks s)" and "T \<le> time"
    and "\<forall>t \<in> set (openTasks s). waitingToSchedule t \<longrightarrow>
           0 < taskArrivalTime t \<and> unat (taskArrivalTime t) + unat time < 2 ^ 64"
    and "emptySystemPrefetch pol h s time = Inr s'"
  shows "fifoOrdered time (openTasks s')"
proof -
  let ?s1 = "readjustArrivalTimes s (nextArrivalLoop (openTasks s) 0 - time)"
  let ?s2 = "fetchTasksIntoQueue ?s1 time"
  have "fifoOrdered T (openTasks ?s1)"
    unfolding readjustArrivalTimes_def using fifoOrdered_readjusted [OF assms(1,3)] by simp
  then have f2: "fifoOrdered T (openTasks ?s2)"
    unfolding fetchTasksIntoQueue_def using fifoOrdered_fetched by simp
  from assms(4) consider "s' = s"
    | ok where "scheduleFront pol h s time = Inr (s', ok)"
    | ok where "scheduleFront pol h ?s2 time = Inr (s', ok)"
    by (auto simp: emptySystemPrefetch_def Let_def split: if_splits sum.splits)
  then show ?thesis
  proof cases
    case 1
    with assms(1,2) show ?thesis by (simp add: fifoOrdered_later)
  next
    case 2
    from fifoOrdered_scheduleFront [OF assms(1,2) this] show ?thesis .
  next
    case 3
    from fifoOrdered_scheduleFront [OF f2 assms(2) this] show ?thesis .
  qed
qed

lemma fifoOrdered_threadExit:
  assumes "fifoOrdered T (openTasks s)" and "T \<le> time"
    and "exitAllowed h s thread_id time"
    and "threadExit pol h s thread_id time = Inr s'"
  shows "fifoOrdered time (openTasks s')"
proof -
  let ?ts = "openTasks s"
  let ?s1 = "releaseThread s thread_id"
  let ?app = "getAppId h thread_id"
  let ?x = "(?ts ! nat ?app)\<lparr>taskDepartureTime := time, completed := True, active := False\<rparr>"
  let ?s2 = "updateTask (releaseTask ?s1 ?app) ?app
      (\<lambda>t. t\<lparr>taskDepartureTime := time, completed := True, active := False\<rparr>)"
  have n1: "numberOfTasks ?s1 = numberOfTasks s" by (simp add: numberOfTasks_def releaseThread_def)
  have t1: "openTasks ?s1 = ?ts" by (simp add: releaseThread_def)
  have t2: "openTasks ?s2 = ?ts[nat ?app := ?x]"
    by (simp add: updateTask_def releaseTask_def releaseThread_def)
  from assms(3) have "\<forall>t \<in> set ?ts. waitingToSchedule t \<longrightarrow>
           0 < taskArrivalTime t \<and> taskArrivalTime t \<le> taskArrivalTime t + time"
    unfolding exitAllowed_def by blast
  then have safe: "\<forall>t \<in> set ?ts. waitingToSchedule t \<longrightarrow>
           0 < taskArrivalTime t \<and> unat (taskArrivalTime t) + unat time < 2 ^ 64"
    using no_olen_add_nat [where 'a = 64] by simp
  from assms(4) consider "thread_id < numberOfTasks s" "0 \<le> ?app" "?app < numberOfTasks s"
      "emptySystemPrefetch pol h ?s2 time = Inr s'"
    | "emptySystemPrefetch pol h ?s1 time = Inr s'"
    unfolding threadExit_def Let_def n1
    by (auto split: if_splits sum.splits)
  then show ?thesis
  proof cases
    case 1
    from 1(2,3) have k: "nat ?app < length ?ts" unfolding numberOfTasks_def by linarith
    from assms(3) 1(1-3) have act: "active (?ts ! nat ?app)" unfolding exitAllowed_def by blast
    have f2: "fifoOrdered T (openTasks ?s2)"
      unfolding t2 using assms(1) k act by (rule fifoOrdered_completed)
    have safe2: "\<forall>t \<in> set (openTasks ?s2). waitingToSchedule t \<longrightarrow>
           0 < taskArrivalTime t \<and> unat (taskArrivalTime t) + unat time < 2 ^ 64"
    proof
      fix t assume "t \<in> set (openTasks ?s2)"
      then have "t = ?x \<or> t \<in> set ?ts"
        unfolding t2 using set_update_subset_insert [of ?ts "nat ?app" ?x] by auto
      then show "waitingToSchedule t \<longrightarrow>
           0 < taskArrivalTime t \<and> unat (taskArrivalTime t) + unat time < 2 ^ 64"
      proof
        assume "t = ?x"
        moreover from k have "?ts ! nat ?app \<in> set ?ts" by simp
        ultimately show ?thesis using safe by auto
      next
        assume "t \<in> set ?ts"
        with safe show ?thesis by blast
      qed
    qed
    from fifoOrdered_emptySystemPrefetch [OF f2 assms(2) safe2 1(4)] show ?thesis .
  next
    case 2
    from assms(1) safe have "fifoOrdered T (openTasks ?s1)"
      "\<forall>t \<in> set (openTasks ?s1). waitingToSchedule t \<longrightarrow>
           0 < taskArrivalTime t \<and> unat (taskArrivalTime t) + unat time < 2 ^ 64"
      by (simp_all add: t1)
    from fifoOrdered_emptySystemPrefetch [OF this(1) assms(2) this(2) 2] show ?thesis .
  qed
qed

lemma fifoOrdered_drainQueue:
  "fifoOrdered time (openTasks s) \<Longrightarrow> drainQueue pol h s time = Inr s' \<Longrightarrow>
     fifoOrdered time (openTasks s')"
proof (induction pol h s time rule: drainQueue.induct)
  case (1 pol h s time)
  show ?case
  proof (cases "numberOfTasksInQueue s \<noteq> 0")
    case False
    with "1.prems" show ?thesis by (simp add: drainQueue.simps [of pol h s time])
  next
    case True
    with "1.prems"(2) obtain s1 ok where sf: "scheduleFront pol h s time = Inr (s1, ok)"
      and rest: "(if ok then drainQueue pol h s1 time else Inr s1) = Inr s'"
      by (simp add: drainQueue.simps [of pol h s time] split: sum.splits prod.splits)
    from fifoOrdered_scheduleFront [OF "1.prems"(1) order_refl sf]
    have c1: "fifoOrdered time (openTasks s1)" .
    show ?thesis
    proof (cases ok)
      case False
      with rest c1 show ?thesis by simp
    next
      case ok: True
      with rest have "drainQueue pol h s1 time = Inr s'" by simp
      from "1.IH" [OF True sf refl ok c1 this] show ?thesis .
    qed
  qed
qed

lemma fifoOrdered_periodic:
  assumes "fifoOrdered T (openTasks s)" and "T \<le> time" and "periodic pol h s time = Inr s'"
  shows "fifoOrdered time (openTasks s')"
proof -
  from assms(1,2) have f: "fifoOrdered time (openTasks s)" by (rule fifoOrdered_later)
  then have ff: "fifoOrdered time (openTasks (fetchTasksIntoQueue s time))"
    unfolding fetchTasksIntoQueue_def using fifoOrdered_fetched by simp
  from periodic_cases [OF assms(3)]
  consider "s' = s" | "drainQueue pol h (fetchTasksIntoQueue s time) time = Inr s'"
    by blast
  then show ?thesis
  proof cases
    case 1
    with f show ?thesis by simp
  next
    case 2
    from fifoOrdered_drainQueue [OF ff 2] show ?thesis .
  qed
qed

lemma fifoOrdered_threadCreate:
  assumes "fifoOrdered T (openTasks s)" and "T \<le> time"
    and "scheduleAllowed s thread_id time"
    and "threadCreate pol h s thread_id time = Inr (s', core)"
  shows "fifoOrdered time (openTasks s')"
proof -
  from assms(4) obtain s1 where
    s1: "s1 = s \<or> (\<exists>ok. schedule pol h s thread_id True time = Inr (s1, ok))"
    and s': "s' = fst (setAffinity h s1 thread_id)"
    by (auto simp: threadCreate_def Let_def split: if_splits sum.splits prod.splits)
  from s1 have "fifoOrdered time (openTasks s1)"
  proof
    assume "s1 = s"
    with assms(1,2) show ?thesis by (simp add: fifoOrdered_later)
  next
    assume "\<exists>ok. schedule pol h s thread_id True time = Inr (s1, ok)"
    then obtain ok where sch: "schedule pol h s thread_id True time = Inr (s1, ok)" by blast
    from fifoOrdered_schedule [OF assms(1-3) sch] show ?thesis .
  qed
  then show ?thesis unfolding s' by (simp add: openTasks_setAffinity)
qed

lemma fifoOrdered_hook:
  assumes "fifoOrdered T (openTasks s)" and "callAllowed h s T call"
    and "hook pol h s call = Inr s'"
  shows "fifoOrdered (callTime T call) (openTasks s')"
proof (cases call)
  case (Schedule taskID isInitialCall time)
  with assms(3) obtain ok where sch: "schedule pol h s taskID isInitialCall time = Inr (s', ok)"
    by (auto split: sum.splits)
  from assms(2) Schedule have "T \<le> time" "scheduleAllowed s taskID time" by simp_all
  from fifoOrdered_schedule [OF assms(1) this sch] Schedule show ?thesis by simp
next
  case (SetAffinity thread_id)
  with assms(3) have "s' = fst (setAffinity h s thread_id)" by simp
  with assms(1) SetAffinity show ?thesis by (simp add: openTasks_setAffinity)
next
  case (ThreadCreate thread_id time)
  with assms(3) obtain core where tc: "threadCreate pol h s thread_id time = Inr (s', core)"
    by (auto split: sum.splits)
  from assms(2) ThreadCreate have "T \<le> time" "scheduleAllowed s thread_id time" by simp_all
  from fifoOrdered_threadCreate [OF assms(1) this tc] ThreadCreate show ?thesis by simp
next
  case (ThreadExit thread_id time)
  with assms(2,3) have "T \<le> time" "exitAllowed h s thread_id time"
    "threadExit pol h s thread_id time = Inr s'" by simp_all
  from fifoOrdered_threadExit [OF assms(1) this] ThreadExit show ?thesis by simp
next
  case (Periodic time)
  with assms(2,3) have "T \<le> time" "periodic pol h s time = Inr s'" by simp_all
  from fifoOrdered_periodic [OF assms(1) this] Periodic show ?thesis by simp
qed

lemma fifoOrdered_run:
  "fifoOrdered T (openTasks s) \<Longrightarrow> disciplined pol h s T calls \<Longrightarrow>
     runHooks pol h s calls = Inr s' \<Longrightarrow> \<exists>T'. fifoOrdered T' (openTasks s')"
proof (induction calls arbitrary: s T)
  case Nil
  then show ?case by auto
next
  case (Cons call calls)
  from Cons.prems(3) obtain s1 where s1: "hook pol h s call = Inr s1"
    and rest: "runHooks pol h s1 calls = Inr s'"
    by (auto split: sum.splits)
  from Cons.prems(2) s1 have ok: "callAllowed h s T call"
    and d: "disciplined pol h s1 (callTime T call) calls" by simp_all
  from fifoOrdered_hook [OF Cons.prems(1) ok s1]
  have "fifoOrdered (callTime T call) (openTasks s1)" .
  from Cons.IH [OF this d rest] show ?case .
qed

lemma fifoOrdered_initial:
  assumes "\<forall>t \<in> set ts. waitingToSchedule t \<and> \<not> waitingInQueue t \<and> \<not> entered t"
    and "sorted (map taskArrivalTime ts)"
  shows "fifoOrdered 0 ts"
proof -
  have "\<forall>j < length ts. \<forall>i < j. pairOrdered (ts ! i) (ts ! j)"
  proof (intro allI impI)
    fix j i assume j: "j < length ts" and i: "i < j"
    with assms(2) have "map taskArrivalTime ts ! i \<le> map taskArrivalTime ts ! j"
      by (intro sorted_nth_mono) simp_all
    with i j have "taskArrivalTime (ts ! i) \<le> taskArrivalTime (ts ! j)" by simp
    moreover from assms(1) j have "waitingToSchedule (ts ! j)" "\<not> entered (ts ! j)" by simp_all
    ultimately show "pairOrdered (ts ! i) (ts ! j)" by (simp add: pairOrdered_def)
  qed
  with assms(1) show ?thesis unfolding fifoOrdered_def inPhase_def by blast
qed

text \<open>
  C6, as the code has it. Take a run of hooks that starts in a state as the constructor
  leaves it (every task waits to be scheduled), with arrival times that do not decrease
  with the task index, and in which the host keeps the discipline \<open>disciplined\<close>. Then
  for any two tasks \<open>i < j\<close>: if task \<open>j\<close> has entered Active, task \<open>i\<close> has too, and at a
  time that is not later.
\<close>

theorem fifo_admission_order:
  assumes "\<forall>t \<in> set (openTasks s). waitingToSchedule t \<and> \<not> waitingInQueue t \<and> \<not> entered t"
    and "sorted (map taskArrivalTime (openTasks s))"
    and "disciplined pol h s 0 calls"
    and "runHooks pol h s calls = Inr s'"
    and "i < j" and "j < length (openTasks s')" and "entered (openTasks s' ! j)"
  shows "entered (openTasks s' ! i)
     \<and> taskStartTime (openTasks s' ! i) \<le> taskStartTime (openTasks s' ! j)"
proof -
  from fifoOrdered_initial [OF assms(1,2)] have "fifoOrdered 0 (openTasks s)" .
  from fifoOrdered_run [OF this assms(3,4)] obtain T' where "fifoOrdered T' (openTasks s')" ..
  from fifoOrdered_pair [OF this assms(5,6)] assms(7) show ?thesis
    unfolding pairOrdered_def by blast
qed



theorem fifo_admission_order_witness:
  "runHooks (mapFirstUnused [0, 1]) exampleHost
      (exampleState [(2, 0), (2, 10000000)] [True, True] 1000000)
      [ThreadCreate 0 0, ThreadCreate 1 0, ThreadExit 0 5000] = Inr jumpAdmitted
   \<and> disciplined (mapFirstUnused [0, 1]) exampleHost
        (exampleState [(2, 0), (2, 10000000)] [True, True] 1000000) 0
        [ThreadCreate 0 0, ThreadCreate 1 0, ThreadExit 0 5000]
   \<and> entered (openTasks jumpAdmitted ! 1)
   \<and> entered (openTasks jumpAdmitted ! 0)
   \<and> taskStartTime (openTasks jumpAdmitted ! 0) \<le> taskStartTime (openTasks jumpAdmitted ! 1)"
proof -
  let ?s = "exampleState [(2, 0), (2, 10000000)] [True, True] 1000000"
  let ?calls = "[ThreadCreate 0 0, ThreadCreate 1 0, ThreadExit 0 5000]"
  have h1: "\<forall>t \<in> set (openTasks ?s). waitingToSchedule t \<and> \<not> waitingInQueue t \<and> \<not> entered t"
    by code_simp
  have h2: "sorted (map taskArrivalTime (openTasks ?s))" by code_simp
  have h3: "disciplined (mapFirstUnused [0, 1]) exampleHost ?s 0 ?calls" by code_simp
  have h4: "runHooks (mapFirstUnused [0, 1]) exampleHost ?s ?calls = Inr jumpAdmitted"
    by code_simp
  have h5: "(0 :: nat) < 1" by simp
  have h6: "1 < length (openTasks jumpAdmitted)" by code_simp
  have h7: "entered (openTasks jumpAdmitted ! 1)" by code_simp
  note t = fifo_admission_order [OF h1 h2 h3 h4 h5 h6 h7]
  from t have a: "entered (openTasks jumpAdmitted ! 0)" by (rule conjunct1)
  from t have b: "taskStartTime (openTasks jumpAdmitted ! 0)
      \<le> taskStartTime (openTasks jumpAdmitted ! 1)" by (rule conjunct2)
  from h4 h3 h7 a b show ?thesis by (intro conjI)
qed

end
